theory Spec2Isabelle
  imports Main "HOL-Library.Word" "HOL-Library.AList"
begin

unbundle bit_operations_syntax

section \<open>Data model\<close>

text \<open>
  The collector \<^verbatim>\<open>BunNodeModulesCollector\<close> of
  \<^verbatim>\<open>packages/app-builder-lib/src/node-module-collector/bunNodeModulesCollector.ts\<close>
  walks the installed \<^verbatim>\<open>node_modules\<close> directories of a project and builds a tree of
  \<^verbatim>\<open>BunDependency\<close> nodes. A node is an immutable value once it is built, so the tree
  of shared JavaScript objects is modelled by the tree of their values.

  A \<^verbatim>\<open>Record<string, T>\<close> is an association list in the enumeration order of
  \<^verbatim>\<open>Object.keys\<close>, with distinct keys. An optional field (\<^verbatim>\<open>| undefined\<close>) is an
  \<open>option\<close>.
\<close>

datatype BunDependency = BunDependency
  (name: string)
  (version: string)
  (reference: string)
  (path: string)
  (manifestDependencies: "(string \<times> string) list")
  (manifestOptionalDependencies: "(string \<times> string) list")
  (dependencies: "(string \<times> BunDependency) list option")
  (optionalDependencies: "(string \<times> BunDependency) list option")

text \<open>The fields of a \<^verbatim>\<open>package.json\<close> that the collector reads.\<close>

record packageJson =
  pkgName :: "string option"
  pkgVersion :: "string option"
  pkgDependencies :: "(string \<times> string) list option"
  pkgOptionalDependencies :: "(string \<times> string) list option"

text \<open>
  A thrown \<^verbatim>\<open>Error\<close> carries its message. A call of the recursive tree build either
  returns, throws, or is \<open>Unfinished\<close>: it did not come back within the recursion depth it was
  given, or its directory walk does not come back at all.
\<close>

datatype error = Error string

datatype 'a outcome = Unfinished | Threw error | Returned 'a

text \<open>
  What the collector takes from outside this file: the project root (\<^verbatim>\<open>this.rootDir\<close>),
  Node's \<^verbatim>\<open>path.join\<close>, \<^verbatim>\<open>path.dirname\<close> and \<^verbatim>\<open>path.resolve\<close>,
  \<^verbatim>\<open>fs.pathExists\<close>, the base class's \<^verbatim>\<open>resolvePath\<close> (the real path of an installed
  directory), \<^verbatim>\<open>require\<close> on a manifest file (the parsed manifest, or the message of the
  error it raised) and the SHA-1 digest of \<^verbatim>\<open>crypto.createHash\<close>. They are parameters; the
  file system does not change during a run.
\<close>

record env =
  rootDir :: string
  pathJoin :: "string list \<Rightarrow> string"
  pathDirname :: "string \<Rightarrow> string"
  pathResolve :: "string \<Rightarrow> string"
  pathExists :: "string \<Rightarrow> bool"
  resolvePath :: "string \<Rightarrow> string"
  requireJson :: "string \<Rightarrow> string + packageJson"
  sha1 :: "string \<Rightarrow> 160 word"

text \<open>
  The private fields of the collector instance, and the calls of \<^verbatim>\<open>log.debug\<close> it has made
  (each with its \<^verbatim>\<open>alias\<close> and \<^verbatim>\<open>requesterDir\<close>).
\<close>

record collector =
  dependencyCacheByPath :: "string \<rightharpoonup> BunDependency"
  processingPaths :: "string set"
  referenceByPath :: "string \<rightharpoonup> string"
  pathByNameVersion :: "string \<rightharpoonup> string"
  debugLog :: "(string \<times> string) list"

definition initialCollector :: collector where
  "initialCollector =
     \<lparr>dependencyCacheByPath = Map.empty, processingPaths = {}, referenceByPath = Map.empty,
      pathByNameVersion = Map.empty, debugLog = []\<rparr>"

section \<open>JavaScript operators\<close>

text \<open>
  \<^verbatim>\<open>if (v)\<close> on a string that may be undefined: the empty string is falsy, as undefined is.
\<close>

definition truthy :: "string option \<Rightarrow> bool" where
  "truthy v = (case v of None \<Rightarrow> False | Some s \<Rightarrow> s \<noteq> [])"

text \<open>\<^verbatim>\<open>v ?? d\<close>, and \<^verbatim>\<open>r ?? {}\<close> (or \<^verbatim>\<open>r || {}\<close>) on a record.\<close>

definition orDefault :: "'a option \<Rightarrow> 'a \<Rightarrow> 'a" where
  "orDefault v d = (case v of None \<Rightarrow> d | Some x \<Rightarrow> x)"

definition orEmpty :: "('a \<times> 'b) list option \<Rightarrow> ('a \<times> 'b) list" where
  "orEmpty r = (case r of None \<Rightarrow> [] | Some es \<Rightarrow> es)"

text \<open>\<^verbatim>\<open>Object.keys(m).length > 0 ? m : undefined\<close>\<close>

definition nonEmptyOrUndefined :: "('a \<times> 'b) list \<Rightarrow> ('a \<times> 'b) list option" where
  "nonEmptyOrUndefined es = (if length (map fst es) > 0 then Some es else None)"

text \<open>
  \<^verbatim>\<open>record[key] = value\<close> on a record that started as the literal \<^verbatim>\<open>{}\<close>: the value
  replaces that of an own key or is added as the last key. For the key \<^verbatim>\<open>__proto__\<close> the
  assignment runs the setter inherited from \<^verbatim>\<open>Object.prototype\<close>, which changes the prototype
  of the record and adds no own key, so \<^verbatim>\<open>Object.keys\<close>, \<^verbatim>\<open>Object.values\<close> and
  \<^verbatim>\<open>Object.entries\<close> never show it.
\<close>

definition assignProperty :: "string \<Rightarrow> 'v \<Rightarrow> (string \<times> 'v) list \<Rightarrow> (string \<times> 'v) list" where
  "assignProperty key v r = (if key = ''__proto__'' then r else AList.update key v r)"

text \<open>
  \<^verbatim>\<open>manifest[alias]\<close> read for its truth value, on a manifest map that \<^verbatim>\<open>require\<close> parsed
  from JSON (or the literal \<^verbatim>\<open>{}\<close>): an own key gives its version range, which is truthy
  unless it is the empty string; a missing key falls through to \<^verbatim>\<open>Object.prototype\<close>, whose
  properties are objects and functions, all truthy.
\<close>

definition objectPrototypeKeys :: "string list" where
  "objectPrototypeKeys =
     [''constructor'', ''__proto__'', ''hasOwnProperty'', ''isPrototypeOf'', ''propertyIsEnumerable'',
      ''toLocaleString'', ''toString'', ''valueOf'', ''__defineGetter__'', ''__defineSetter__'',
      ''__lookupGetter__'', ''__lookupSetter__'']"

definition truthyProperty :: "(string \<times> string) list \<Rightarrow> string \<Rightarrow> bool" where
  "truthyProperty manifest alias =
     (case map_of manifest alias of
        Some versionRange \<Rightarrow> versionRange \<noteq> []
      | None \<Rightarrow> alias \<in> set objectPrototypeKeys)"

text \<open>The identifier of a node: its \<^verbatim>\<open>name\<close>, an \<^verbatim>\<open>@\<close>, its \<^verbatim>\<open>reference\<close>.\<close>

definition dependencyKey :: "BunDependency \<Rightarrow> string" where
  "dependencyKey dependency = name dependency @ ''@'' @ reference dependency"

text \<open>
  \<^verbatim>\<open>digest("hex")\<close> of a 160-bit digest: forty lower-case hexadecimal digits, the most
  significant first.
\<close>

definition hexDigit :: "nat \<Rightarrow> char" where
  "hexDigit n = ''0123456789abcdef'' ! (n mod 16)"

definition digestHex :: "160 word \<Rightarrow> string" where
  "digestHex w = map (\<lambda>i. hexDigit (unat (drop_bit (4 * (39 - i)) w))) [0..<40]"

section \<open>The collector\<close>

subsection \<open>createReference\<close>

definition createReference ::
  "env \<Rightarrow> string \<Rightarrow> string option \<Rightarrow> string \<Rightarrow> collector \<Rightarrow> string \<times> collector" where
  "createReference E name' version' realDir s =
     (let cachedReference = referenceByPath s realDir in
      if truthy cachedReference then (the cachedReference, s)
      else
        let normalizedVersion = orDefault version' ''0.0.0'';
            key = name' @ ''@'' @ normalizedVersion;
            existingPath = pathByNameVersion s key in
        if \<not> truthy existingPath then
          (normalizedVersion,
           s\<lparr>pathByNameVersion := (pathByNameVersion s)(key \<mapsto> realDir),
             referenceByPath := (referenceByPath s)(realDir \<mapsto> normalizedVersion)\<rparr>)
        else if existingPath = Some realDir then
          (normalizedVersion,
           s\<lparr>referenceByPath := (referenceByPath s)(realDir \<mapsto> normalizedVersion)\<rparr>)
        else
          let hash = take 8 (digestHex (sha1 E realDir));
              uniqueReference = normalizedVersion @ ''+'' @ hash in
          (uniqueReference,
           s\<lparr>referenceByPath := (referenceByPath s)(realDir \<mapsto> uniqueReference)\<rparr>))"

text \<open>
  Drivers for statements about several allocations: the same call made \<open>k\<close> times, and a list
  of calls made in order. Each threads the collector through and gathers the references returned.
\<close>

primrec createReferenceTimes ::
  "nat \<Rightarrow> env \<Rightarrow> string \<Rightarrow> string option \<Rightarrow> string \<Rightarrow> collector \<Rightarrow> string list \<times> collector" where
  "createReferenceTimes 0 E name' version' realDir s = ([], s)"
| "createReferenceTimes (Suc k) E name' version' realDir s =
     (let (r, s') = createReference E name' version' realDir s;
          (rs, s'') = createReferenceTimes k E name' version' realDir s'
      in (r # rs, s''))"

primrec createReferences ::
  "env \<Rightarrow> (string \<times> string option \<times> string) list \<Rightarrow> collector \<Rightarrow> string list \<times> collector" where
  "createReferences E [] s = ([], s)"
| "createReferences E (call # calls) s =
     (let (r, s') = createReference E (fst call) (fst (snd call)) (snd (snd call)) s;
          (rs, s'') = createReferences E calls s'
      in (r # rs, s''))"

subsection \<open>readPackageJson and parseDependenciesTree\<close>

definition readPackageJson :: "env \<Rightarrow> string \<Rightarrow> error + packageJson" where
  "readPackageJson E dir =
     (let packageJsonPath = pathJoin E [dir, ''package.json''] in
      case requireJson E packageJsonPath of
        Inr manifest \<Rightarrow> Inr manifest
      | Inl message \<Rightarrow> Inl (Error (''Unable to read package.json for '' @ dir @ '': '' @ message)))"

definition parseDependenciesTree :: "string \<Rightarrow> error + BunDependency" where
  "parseDependenciesTree jsonBlob =
     Inl (Error ''BunNodeModulesCollector does not parse external dependency trees'')"

subsection \<open>findInstalledDependency\<close>

text \<open>
  The \<^verbatim>\<open>while (true)\<close> loop may fail to come back for a \<^verbatim>\<open>path.dirname\<close> that never
  reaches a fixed point: the outer \<open>None\<close> is that case. Inside, \<open>Some candidate\<close> is the
  path returned from within the loop and \<open>None\<close> is a \<^verbatim>\<open>break\<close>.
\<close>

partial_function (option) findInstalledDependency_loop ::
  "env \<Rightarrow> string \<Rightarrow> string \<Rightarrow> string \<Rightarrow> string option option" where
  "findInstalledDependency_loop E resolvedRoot dependencyName currentDir =
     (let candidate = pathJoin E [currentDir, ''node_modules'', dependencyName] in
      if pathExists E candidate then Some (Some candidate)
      else if pathResolve E currentDir = resolvedRoot then Some None
      else
        let parentDir = pathDirname E currentDir in
        if parentDir = currentDir then Some None
        else findInstalledDependency_loop E resolvedRoot dependencyName parentDir)"

declare findInstalledDependency_loop.simps [code]

text \<open>The result \<open>Some None\<close> is the \<^verbatim>\<open>null\<close> of the source: no installation found.\<close>

definition findInstalledDependency :: "env \<Rightarrow> string \<Rightarrow> string \<Rightarrow> string option option" where
  "findInstalledDependency E startDir dependencyName =
     (let resolvedRoot = pathResolve E (rootDir E) in
      case findInstalledDependency_loop E resolvedRoot dependencyName startDir of
        None \<Rightarrow> None
      | Some (Some candidate) \<Rightarrow> Some (Some candidate)
      | Some None \<Rightarrow>
          let rootCandidate = pathJoin E [resolvedRoot, ''node_modules'', dependencyName] in
          if pathExists E rootCandidate then Some (Some rootCandidate) else Some None)"

subsection \<open>loadDependency and resolveChildren\<close>

text \<open>
  The two methods call each other. \<open>fuel\<close> bounds the depth of nested
  \<^verbatim>\<open>loadDependency\<close> calls: a call that would go deeper is \<open>Unfinished\<close>. The two
  \<^verbatim>\<open>for\<close> loops of \<^verbatim>\<open>resolveChildren\<close> are \<open>resolveAliases\<close>, over
  \<^verbatim>\<open>Object.keys\<close> of a manifest map, with the record built so far; the assignment
  \<^verbatim>\<open>dependencies[alias] = dep\<close> is \<open>assignProperty\<close>. The \<^verbatim>\<open>finally\<close> block runs
  on every way out of the \<^verbatim>\<open>try\<close> block.
\<close>

function loadDependency ::
  "nat \<Rightarrow> env \<Rightarrow> string \<Rightarrow> string \<Rightarrow> bool \<Rightarrow> collector \<Rightarrow> BunDependency option outcome \<times> collector"
and resolveAliases ::
  "nat \<Rightarrow> env \<Rightarrow> string \<Rightarrow> bool \<Rightarrow> string list \<Rightarrow> (string \<times> BunDependency) list \<Rightarrow> collector
     \<Rightarrow> (string \<times> BunDependency) list outcome \<times> collector"
and resolveChildren ::
  "nat \<Rightarrow> env \<Rightarrow> string \<Rightarrow> (string \<times> string) list \<Rightarrow> (string \<times> string) list \<Rightarrow> collector
     \<Rightarrow> ((string \<times> BunDependency) list \<times> (string \<times> BunDependency) list) outcome \<times> collector"
where
  "loadDependency fuel E alias requesterDir isOptional s =
     (case findInstalledDependency E requesterDir alias of
        None \<Rightarrow> (Unfinished, s)
      | Some None \<Rightarrow>
          (Returned None,
           if \<not> isOptional then s\<lparr>debugLog := debugLog s @ [(alias, requesterDir)]\<rparr> else s)
      | Some (Some installedPath) \<Rightarrow>
          let realDir = resolvePath E installedPath in
          (case dependencyCacheByPath s realDir of
             Some cached \<Rightarrow> (Returned (Some cached), s)
           | None \<Rightarrow>
               if realDir \<in> processingPaths s then (Returned (dependencyCacheByPath s realDir), s)
               else
                 let s1 = s\<lparr>processingPaths := insert realDir (processingPaths s)\<rparr>;
                     (result, s4) =
                       (case readPackageJson E realDir of
                          Inl e \<Rightarrow> (Threw e, s1)
                        | Inr manifest \<Rightarrow>
                            let packageName = orDefault (pkgName manifest) alias;
                                manifestDependencies' = orEmpty (pkgDependencies manifest);
                                manifestOptionalDependencies' = orEmpty (pkgOptionalDependencies manifest)
                            in
                            (case fuel of
                               0 \<Rightarrow> (Unfinished, s1)
                             | Suc fuel' \<Rightarrow>
                                 (case resolveChildren fuel' E realDir manifestDependencies'
                                         manifestOptionalDependencies' s1 of
                                    (Unfinished, s2) \<Rightarrow> (Unfinished, s2)
                                  | (Threw e, s2) \<Rightarrow> (Threw e, s2)
                                  | (Returned childMaps, s2) \<Rightarrow>
                                      let (reference', s3) =
                                            createReference E packageName (pkgVersion manifest) realDir s2;
                                          dependency = BunDependency packageName
                                            (orDefault (pkgVersion manifest) ''0.0.0'')
                                            reference' realDir manifestDependencies' manifestOptionalDependencies'
                                            (nonEmptyOrUndefined (fst childMaps))
                                            (nonEmptyOrUndefined (snd childMaps))
                                      in
                                      (Returned (Some dependency),
                                       s3\<lparr>dependencyCacheByPath :=
                                            (dependencyCacheByPath s3)(realDir \<mapsto> dependency)\<rparr>))))
                 in (result, s4\<lparr>processingPaths := processingPaths s4 - {realDir}\<rparr>)))"
| "resolveAliases fuel E requesterDir isOptional [] acc s = (Returned acc, s)"
| "resolveAliases fuel E requesterDir isOptional (alias # aliases) acc s =
     (case loadDependency fuel E alias requesterDir isOptional s of
        (Unfinished, s') \<Rightarrow> (Unfinished, s')
      | (Threw e, s') \<Rightarrow> (Threw e, s')
      | (Returned None, s') \<Rightarrow> resolveAliases fuel E requesterDir isOptional aliases acc s'
      | (Returned (Some dep), s') \<Rightarrow>
          resolveAliases fuel E requesterDir isOptional aliases (assignProperty alias dep acc) s')"
| "resolveChildren fuel E requesterDir manifestDependencies' manifestOptionalDependencies' s =
     (case resolveAliases fuel E requesterDir False (map fst manifestDependencies') [] s of
        (Unfinished, s') \<Rightarrow> (Unfinished, s')
      | (Threw e, s') \<Rightarrow> (Threw e, s')
      | (Returned dependencies', s') \<Rightarrow>
          (case resolveAliases fuel E requesterDir True (map fst manifestOptionalDependencies') [] s' of
             (Unfinished, s'') \<Rightarrow> (Unfinished, s'')
           | (Threw e, s'') \<Rightarrow> (Threw e, s'')
           | (Returned optionalDependencies', s'') \<Rightarrow>
               (Returned (dependencies', optionalDependencies'), s'')))"
  by pat_completeness auto
termination
  by (relation "inv_image (less_than <*lex*> less_than)
        (\<lambda>x. case x of
           Inl (fuel, E, alias, requesterDir, isOptional, s) \<Rightarrow> (2 * fuel, 0)
         | Inr (Inl (fuel, E, requesterDir, isOptional, aliases, acc, s)) \<Rightarrow>
             (2 * fuel, Suc (length aliases))
         | Inr (Inr (fuel, E, requesterDir, md, mo, s)) \<Rightarrow> (2 * fuel + 1, 0))") auto

subsection \<open>getDependenciesTree\<close>

definition getDependenciesTree :: "nat \<Rightarrow> env \<Rightarrow> collector \<Rightarrow> BunDependency outcome \<times> collector" where
  "getDependenciesTree fuel E s =
     (case readPackageJson E (rootDir E) of
        Inl e \<Rightarrow> (Threw e, s)
      | Inr rootManifest \<Rightarrow>
          let rootName = orDefault (pkgName rootManifest) ''.'' in
          (case resolveChildren fuel E (rootDir E) (orEmpty (pkgDependencies rootManifest))
                  (orEmpty (pkgOptionalDependencies rootManifest)) s of
             (Unfinished, s') \<Rightarrow> (Unfinished, s')
           | (Threw e, s') \<Rightarrow> (Threw e, s')
           | (Returned childMaps, s') \<Rightarrow>
               (Returned (BunDependency rootName
                  (orDefault (pkgVersion rootManifest) ''0.0.0'')
                  ''.'' (rootDir E)
                  (orEmpty (pkgDependencies rootManifest))
                  (orEmpty (pkgOptionalDependencies rootManifest))
                  (nonEmptyOrUndefined (fst childMaps))
                  (nonEmptyOrUndefined (snd childMaps))), s')))"

subsection \<open>collectAllDependencies\<close>

text \<open>
  \<^verbatim>\<open>this.allDependencies\<close> is a \<^verbatim>\<open>Map\<close> of the base class: an association list in
  insertion order, \<^verbatim>\<open>has\<close> a lookup and \<^verbatim>\<open>set\<close> on a new key an append. Each
  \<^verbatim>\<open>for\<close> loop over \<^verbatim>\<open>Object.values\<close> is \<open>collectEach\<close>.
\<close>

function collectAllDependencies ::
  "BunDependency \<Rightarrow> (string \<times> BunDependency) list \<Rightarrow> (string \<times> BunDependency) list"
and collectEach ::
  "BunDependency list \<Rightarrow> (string \<times> BunDependency) list \<Rightarrow> (string \<times> BunDependency) list"
where
  "collectAllDependencies tree allDependencies =
     collectEach (map snd (orEmpty (optionalDependencies tree)))
       (collectEach (map snd (orEmpty (dependencies tree))) allDependencies)"
| "collectEach [] allDependencies = allDependencies"
| "collectEach (dependency # rest) allDependencies =
     (let key = dependencyKey dependency in
      if map_of allDependencies key = None
      then collectEach rest (collectAllDependencies dependency (allDependencies @ [(key, dependency)]))
      else collectEach rest allDependencies)"
  by pat_completeness auto
termination
proof -
  have aux: "size_list (\<lambda>x. size (snd x)) es \<le> size_list (size_prod (\<lambda>x. 0) size) es"
    for es :: "(string \<times> BunDependency) list"
    by (rule size_list_pointwise) auto
  show ?thesis
    apply (relation "measure (\<lambda>x. case x of
             Inl (tree, m) \<Rightarrow> 2 * size tree
           | Inr (ds, m) \<Rightarrow> 2 * size_list size ds + 1)")
    apply (auto simp: orEmpty_def comp_def split: option.splits)
    subgoal for tree by (cases tree) simp
    subgoal for tree es using aux [of es] by (cases tree) simp
    subgoal for tree by (cases tree) simp
    subgoal for tree m es using aux [of es] by (cases tree) simp
    subgoal for tree by (cases tree) simp
    subgoal for tree m es es' using aux [of es'] by (cases tree) simp
    done
qed

subsection \<open>extractProductionDependencyGraph\<close>

text \<open>
  \<^verbatim>\<open>this.productionGraph\<close> belongs to the base class; it is a map from an identifier to
  the list of child identifiers stored under it. The closure \<^verbatim>\<open>appendChildren\<close> pushes to
  the local array \<^verbatim>\<open>dependencies\<close>, which is passed in and returned.
\<close>

function extractProductionDependencyGraph ::
  "BunDependency \<Rightarrow> string \<Rightarrow> (string \<rightharpoonup> string list) \<Rightarrow> (string \<rightharpoonup> string list)"
and appendChildren ::
  "(string \<times> BunDependency) list \<Rightarrow> (string \<times> string) list \<Rightarrow> string list
     \<Rightarrow> (string \<rightharpoonup> string list) \<Rightarrow> string list \<times> (string \<rightharpoonup> string list)"
where
  "extractProductionDependencyGraph tree dependencyId productionGraph =
     (if productionGraph dependencyId \<noteq> None then productionGraph
      else
        let (dependencies1, graph1) =
              appendChildren (orEmpty (dependencies tree)) (manifestDependencies tree) [] productionGraph;
            (dependencies2, graph2) =
              appendChildren (orEmpty (optionalDependencies tree)) (manifestOptionalDependencies tree)
                dependencies1 graph1
        in graph2(dependencyId \<mapsto> dependencies2))"
| "appendChildren [] manifest dependencies' productionGraph = (dependencies', productionGraph)"
| "appendChildren ((alias, dep) # entries) manifest dependencies' productionGraph =
     (if \<not> truthyProperty manifest alias
      then appendChildren entries manifest dependencies' productionGraph
      else
        let childId = dependencyKey dep in
        appendChildren entries manifest (dependencies' @ [childId])
          (extractProductionDependencyGraph dep childId productionGraph))"
  by pat_completeness auto
termination
proof -
  have aux: "size_list (\<lambda>x. size (snd x)) es \<le> size_list (size_prod (\<lambda>x. 0) size) es"
    for es :: "(string \<times> BunDependency) list"
    by (rule size_list_pointwise) auto
  show ?thesis
    apply (relation "measure (\<lambda>x. case x of
             Inl (tree, i, g) \<Rightarrow> 2 * size tree
           | Inr (es, m, ds, g) \<Rightarrow> 2 * size_list (\<lambda>x. size (snd x)) es + 1)")
    apply (auto simp: orEmpty_def comp_def split: option.splits)
    subgoal for tree by (cases tree) simp
    subgoal for tree i g es using aux [of es] by (cases tree) simp
    subgoal for tree by (cases tree) simp
    subgoal for tree i g a b xa y es using aux [of es] by (cases tree) simp
    subgoal for tree by (cases tree) simp
    subgoal for tree i g a b xa y es es' using aux [of es'] by (cases tree) simp
    done
qed

section \<open>Notions used to state the properties\<close>

text \<open>
  The directories the upward walk of \<^verbatim>\<open>findInstalledDependency\<close> visits: the \<open>k\<close>-th
  ancestor of a directory is \<^verbatim>\<open>path.dirname\<close> applied \<open>k\<close> times. The walk stops at a
  directory that resolves to the project root, or that is its own parent.
\<close>

definition ancestorDir :: "env \<Rightarrow> nat \<Rightarrow> string \<Rightarrow> string" where
  "ancestorDir E k dir = (pathDirname E ^^ k) dir"

definition walkStops :: "env \<Rightarrow> string \<Rightarrow> bool" where
  "walkStops E dir \<longleftrightarrow> pathResolve E dir = pathResolve E (rootDir E) \<or> pathDirname E dir = dir"

text \<open>
  The search order in words: the candidate \<^verbatim>\<open><dir>/node_modules/<name>\<close> at the requester
  directory, then at each ancestor up to the \<open>k\<close>-th, then once more at the resolved project
  root.
\<close>

definition searchCandidates :: "env \<Rightarrow> nat \<Rightarrow> string \<Rightarrow> string \<Rightarrow> string list" where
  "searchCandidates E k startDir dependencyName =
     map (\<lambda>i. pathJoin E [ancestorDir E i startDir, ''node_modules'', dependencyName]) [0..<Suc k]
     @ [pathJoin E [pathResolve E (rootDir E), ''node_modules'', dependencyName]]"

text \<open>
  The real paths of the installations \<^verbatim>\<open>findInstalledDependency\<close> can return: of a
  candidate \<^verbatim>\<open><dir>/node_modules/<alias>\<close> that exists, for some requester directory and
  alias.
\<close>

definition installedDirs :: "env \<Rightarrow> string set" where
  "installedDirs E =
     {realDir. \<exists>requesterDir alias installedPath.
        findInstalledDependency E requesterDir alias = Some (Some installedPath) \<and>
        realDir = resolvePath E installedPath}"

text \<open>
  The installed directories whose manifest can be read: the only ones for which the tree build
  constructs a node.
\<close>

definition loadedDirs :: "env \<Rightarrow> string set" where
  "loadedDirs E = {realDir \<in> installedDirs E. \<exists>manifest. readPackageJson E realDir = Inr manifest}"

text \<open>
  What a call of the tree build leaves alone: the set of paths in progress is the same after the
  call as before it, and the node cache and the reference table change at most at directories
  that are installed and have a readable manifest.
\<close>

definition frame :: "env \<Rightarrow> collector \<Rightarrow> collector \<Rightarrow> bool" where
  "frame E s s' \<longleftrightarrow>
     processingPaths s' = processingPaths s \<and>
     (\<forall>p. p \<notin> loadedDirs E \<longrightarrow>
        dependencyCacheByPath s' p = dependencyCacheByPath s p \<and>
        referenceByPath s' p = referenceByPath s p)"

text \<open>
  The rest of \<^verbatim>\<open>loadDependency\<close> once \<^verbatim>\<open>resolveChildren\<close> has come back with \<open>r\<close>,
  the \<^verbatim>\<open>finally\<close> block included; \<open>loadDependency_descend\<close> below shows that it is.
\<close>

definition afterChildren ::
  "env \<Rightarrow> string \<Rightarrow> string \<Rightarrow> packageJson
     \<Rightarrow> ((string \<times> BunDependency) list \<times> (string \<times> BunDependency) list) outcome \<times> collector
     \<Rightarrow> BunDependency option outcome \<times> collector" where
  "afterChildren E alias realDir manifest r =
     (case fst r of
        Unfinished \<Rightarrow> (Unfinished, (snd r)\<lparr>processingPaths := processingPaths (snd r) - {realDir}\<rparr>)
      | Threw e \<Rightarrow> (Threw e, (snd r)\<lparr>processingPaths := processingPaths (snd r) - {realDir}\<rparr>)
      | Returned childMaps \<Rightarrow>
          let created = createReference E (orDefault (pkgName manifest) alias) (pkgVersion manifest)
                          realDir (snd r);
              dependency = BunDependency (orDefault (pkgName manifest) alias)
                (orDefault (pkgVersion manifest) ''0.0.0'') (fst created) realDir
                (orEmpty (pkgDependencies manifest)) (orEmpty (pkgOptionalDependencies manifest))
                (nonEmptyOrUndefined (fst childMaps)) (nonEmptyOrUndefined (snd childMaps))
          in (Returned (Some dependency),
              (snd created)\<lparr>dependencyCacheByPath :=
                               (dependencyCacheByPath (snd created))(realDir \<mapsto> dependency),
                 processingPaths := processingPaths (snd created) - {realDir}\<rparr>))"

text \<open>
  The children of a node, \<^verbatim>\<open>dependencies\<close> before \<^verbatim>\<open>optionalDependencies\<close>, and the
  nodes of a tree below its root, in the order of a depth-first walk.
\<close>

definition childNodes :: "BunDependency \<Rightarrow> BunDependency list" where
  "childNodes tree = map snd (orEmpty (dependencies tree)) @ map snd (orEmpty (optionalDependencies tree))"

function descendants :: "BunDependency \<Rightarrow> BunDependency list"
and descendantsEach :: "BunDependency list \<Rightarrow> BunDependency list"
where
  "descendants tree = descendantsEach (childNodes tree)"
| "descendantsEach [] = []"
| "descendantsEach (dependency # rest) = dependency # descendants dependency @ descendantsEach rest"
  by pat_completeness auto
termination
proof -
  have aux: "size_list (\<lambda>x. size (snd x)) es \<le> size_list (size_prod (\<lambda>x. 0) size) es"
    for es :: "(string \<times> BunDependency) list"
    by (rule size_list_pointwise) auto
  show ?thesis
    apply (relation "measure (\<lambda>x. case x of
             Inl tree \<Rightarrow> 2 * size tree
           | Inr ds \<Rightarrow> 2 * size_list size ds + 1)")
    apply (auto simp: childNodes_def orEmpty_def comp_def split: option.splits)
    subgoal for tree by (cases tree) simp
    subgoal for tree es using aux [of es] by (cases tree) simp
    subgoal for tree es using aux [of es] by (cases tree) simp
    subgoal for tree es es' using aux [of es] aux [of es'] by (cases tree) simp
    done
qed

text \<open>
  An entry of the transitive map is closed in a map \<open>r\<close> when it is stored under the
  identifier of its own node and \<open>r\<close> has a key for each child of that node. A run of the
  collector makes a map \<open>m\<close> grow into \<open>r\<close>: it appends entries under new, distinct keys,
  each closed in \<open>r\<close>.
\<close>

definition closedEntry :: "(string \<times> BunDependency) list \<Rightarrow> string \<times> BunDependency \<Rightarrow> bool" where
  "closedEntry r e \<longleftrightarrow>
     fst e = dependencyKey (snd e) \<and>
     (\<forall>c \<in> set (childNodes (snd e)). dependencyKey c \<in> fst ` set r)"

definition grows :: "(string \<times> BunDependency) list \<Rightarrow> (string \<times> BunDependency) list \<Rightarrow> bool" where
  "grows m r \<longleftrightarrow>
     (\<exists>new. r = m @ new \<and> distinct (map fst new) \<and> fst ` set new \<inter> fst ` set m = {} \<and>
        (\<forall>e \<in> set new. closedEntry r e))"

text \<open>
  The edges that \<^verbatim>\<open>extractProductionDependencyGraph\<close> stores for a node: the identifiers
  of the children whose alias passes the test \<^verbatim>\<open>manifest[alias]\<close> on the node's own manifest map.
\<close>

definition keptChildren :: "(string \<times> BunDependency) list \<Rightarrow> (string \<times> string) list \<Rightarrow> string list" where
  "keptChildren entries manifest =
     map (\<lambda>e. dependencyKey (snd e)) (filter (\<lambda>e. truthyProperty manifest (fst e)) entries)"

definition productionEdges :: "BunDependency \<Rightarrow> string list" where
  "productionEdges tree =
     keptChildren (orEmpty (dependencies tree)) (manifestDependencies tree)
     @ keptChildren (orEmpty (optionalDependencies tree)) (manifestOptionalDependencies tree)"

text \<open>
  Two nodes of a tree with the same identifier are the same installation: the same node.
\<close>

definition sameIdSameNode :: "BunDependency \<Rightarrow> bool" where
  "sameIdSameNode tree \<longleftrightarrow>
     (\<forall>d \<in> set (descendants tree). \<forall>d' \<in> set (descendants tree).
        dependencyKey d = dependencyKey d' \<longrightarrow> d = d')"

text \<open>
  Two nodes of a tree with the same identifier belong to the same installation: they have the
  same real path.
\<close>

definition distinctIdentifiers :: "BunDependency \<Rightarrow> bool" where
  "distinctIdentifiers tree \<longleftrightarrow>
     (\<forall>d \<in> set (descendants tree). \<forall>d' \<in> set (descendants tree).
        dependencyKey d = dependencyKey d' \<longrightarrow> path d = path d')"

text \<open>
  The path cache and the nodes. A node is cached when the cache holds it for its own path; the
  cache is closed when every node it holds is stored under its own path and has cached
  children only. A run of the tree build makes the cache grow: the paths in progress are the
  same after it, the entries of the cache stay, the paths in progress get no entry, and a
  closed cache stays closed. The three predicates after that say this of the three functions
  of the build, and that the nodes they return are cached.
\<close>

definition cachedNode :: "collector \<Rightarrow> BunDependency \<Rightarrow> bool" where
  "cachedNode s d \<longleftrightarrow> dependencyCacheByPath s (path d) = Some d"

definition cacheClosed :: "collector \<Rightarrow> bool" where
  "cacheClosed s \<longleftrightarrow>
     (\<forall>p d. dependencyCacheByPath s p = Some d \<longrightarrow>
        path d = p \<and> (\<forall>c \<in> set (childNodes d). cachedNode s c))"

definition cacheGrows :: "collector \<Rightarrow> collector \<Rightarrow> bool" where
  "cacheGrows s s' \<longleftrightarrow>
     processingPaths s' = processingPaths s \<and>
     (\<forall>p d. dependencyCacheByPath s p = Some d \<longrightarrow> dependencyCacheByPath s' p = Some d) \<and>
     (\<forall>p \<in> processingPaths s. dependencyCacheByPath s' p = dependencyCacheByPath s p) \<and>
     (cacheClosed s \<longrightarrow> cacheClosed s')"

definition loadGood :: "collector \<Rightarrow> BunDependency option outcome \<times> collector \<Rightarrow> bool" where
  "loadGood s x \<longleftrightarrow>
     cacheGrows s (snd x) \<and>
     (cacheClosed s \<longrightarrow> (\<forall>d. fst x = Returned (Some d) \<longrightarrow> cachedNode (snd x) d))"

definition aliasesGood ::
  "collector \<Rightarrow> (string \<times> BunDependency) list
     \<Rightarrow> (string \<times> BunDependency) list outcome \<times> collector \<Rightarrow> bool" where
  "aliasesGood s acc x \<longleftrightarrow>
     cacheGrows s (snd x) \<and>
     (cacheClosed s \<and> (\<forall>d \<in> snd ` set acc. cachedNode s d) \<longrightarrow>
        (\<forall>acc'. fst x = Returned acc' \<longrightarrow> (\<forall>d \<in> snd ` set acc'. cachedNode (snd x) d)))"

definition childrenGood ::
  "collector
     \<Rightarrow> ((string \<times> BunDependency) list \<times> (string \<times> BunDependency) list) outcome \<times> collector
     \<Rightarrow> bool" where
  "childrenGood s x \<longleftrightarrow>
     cacheGrows s (snd x) \<and>
     (cacheClosed s \<longrightarrow>
        (\<forall>ds os. fst x = Returned (ds, os) \<longrightarrow>
           (\<forall>d \<in> snd ` set ds \<union> snd ` set os. cachedNode (snd x) d)))"


section \<open>Sample projects\<close>

text \<open>
  A path library for normalized absolute POSIX paths, and small projects on it. They give the
  theorems below concrete instances; the theorems themselves hold for every \<open>env\<close>. In a
  sample project every path is its own real path, a manifest that is not listed cannot be
  required, and the digest of every path is one fixed value (the SHA-1 of the empty string), which
  stands in for the real digest. Where a project departs from this it says so.
\<close>

fun posixJoin :: "string list \<Rightarrow> string" where
  "posixJoin [] = ''.''"
| "posixJoin [p] = p"
| "posixJoin (p # ps) = p @ ''/'' @ posixJoin ps"

definition posixDirname :: "string \<Rightarrow> string" where
  "posixDirname p =
     (let q = rev (drop 1 (dropWhile (\<lambda>c. c \<noteq> CHR ''/'') (rev p))) in
      if q = [] then (if take 1 p = ''/'' then ''/'' else ''.'') else q)"

definition manifestOf :: "string \<Rightarrow> string \<Rightarrow> (string \<times> string) list \<Rightarrow> packageJson" where
  "manifestOf n v ds =
     \<lparr>pkgName = Some n, pkgVersion = Some v, pkgDependencies = Some ds, pkgOptionalDependencies = None\<rparr>"

definition sampleProject :: "string list \<Rightarrow> (string \<times> packageJson) list \<Rightarrow> env" where
  "sampleProject installed manifests =
     \<lparr>rootDir = ''/app'', pathJoin = posixJoin, pathDirname = posixDirname, pathResolve = (\<lambda>p. p),
      pathExists = (\<lambda>p. p \<in> set installed), resolvePath = (\<lambda>p. p),
      requireJson = (\<lambda>file. case map_of manifests file of
                              Some manifest \<Rightarrow> Inr manifest
                            | None \<Rightarrow> Inl (''Cannot find module '' @ file)),
      sha1 = (\<lambda>p. 0xda39a3ee5e6b4b0d3255bfef95601890afd80709)\<rparr>"



text \<open>
  \<open>lodash\<close> is installed at the root only; \<open>left-pad\<close> 1.0.0 is installed twice,
  hoisted at the root and nested under \<open>a\<close>; \<open>c\<close> is declared by the root and by
  \<open>a\<close> and installed nowhere; the manifest of \<open>b\<close> is missing.
\<close>

definition hoistedProject :: env where
  "hoistedProject = sampleProject
     [''/app/node_modules/lodash'', ''/app/node_modules/left-pad'', ''/app/node_modules/a'',
      ''/app/node_modules/a/node_modules/left-pad'', ''/app/node_modules/b'']
     [(''/app/package.json'',
         \<lparr>pkgName = None, pkgVersion = None,
          pkgDependencies = Some [(''c'', ''*''), (''a'', ''^2.0.0'')],
          pkgOptionalDependencies = Some [(''fsevents'', ''^2.0.0'')]\<rparr>),
      (''/app/node_modules/lodash/package.json'', manifestOf ''lodash'' ''4.17.21'' []),
      (''/app/node_modules/left-pad/package.json'', manifestOf ''left-pad'' ''1.0.0'' []),
      (''/app/node_modules/a/package.json'', manifestOf ''a'' ''2.0.0'' [(''c'', ''*''), (''lodash'', ''^4.0.0'')]),
      (''/app/node_modules/a/node_modules/left-pad/package.json'', manifestOf ''left-pad'' ''1.0.0'' [])]"

text \<open>The project requires \<open>a\<close>, \<open>a\<close> requires \<open>b\<close>, and \<open>b\<close> is installed without a manifest.\<close>

definition brokenProject :: env where
  "brokenProject = sampleProject
     [''/app/node_modules/a'', ''/app/node_modules/b'']
     [(''/app/package.json'', manifestOf ''app'' ''1.0.0'' [(''a'', ''^1.0.0'')]),
      (''/app/node_modules/a/package.json'', manifestOf ''a'' ''1.0.0'' [(''b'', ''^1.0.0'')])]"

text \<open>The project requires \<open>a\<close> and \<open>b\<close>; both require \<open>lodash\<close>, hoisted at the root.\<close>

definition diamondProject :: env where
  "diamondProject = sampleProject
     [''/app/node_modules/a'', ''/app/node_modules/b'', ''/app/node_modules/lodash'']
     [(''/app/package.json'', manifestOf ''app'' ''1.0.0'' [(''a'', ''^1.0.0''), (''b'', ''^1.0.0'')]),
      (''/app/node_modules/a/package.json'', manifestOf ''a'' ''1.0.0'' [(''lodash'', ''^4.0.0'')]),
      (''/app/node_modules/b/package.json'', manifestOf ''b'' ''1.0.0'' [(''lodash'', ''^4.0.0'')]),
      (''/app/node_modules/lodash/package.json'', manifestOf ''lodash'' ''4.17.21'' [])]"

definition diamondTree :: BunDependency where
  "diamondTree = BunDependency ''app'' ''1.0.0'' ''.'' ''/app'' [(''a'', ''^1.0.0''), (''b'', ''^1.0.0'')] []
     (Some [(''a'', BunDependency ''a'' ''1.0.0'' ''1.0.0'' ''/app/node_modules/a'' [(''lodash'', ''^4.0.0'')] []
               (Some [(''lodash'', BunDependency ''lodash'' ''4.17.21'' ''4.17.21''
                         ''/app/node_modules/lodash'' [] [] None None)]) None),
            (''b'', BunDependency ''b'' ''1.0.0'' ''1.0.0'' ''/app/node_modules/b'' [(''lodash'', ''^4.0.0'')] []
               (Some [(''lodash'', BunDependency ''lodash'' ''4.17.21'' ''4.17.21''
                         ''/app/node_modules/lodash'' [] [] None None)]) None)])
     None"

text \<open>
  The root manifest declares \<open>x\<close> with the empty version range (any version, for the
  package manager), and \<open>x\<close> is installed.
\<close>

definition emptyRangeProject :: env where
  "emptyRangeProject = sampleProject
     [''/app/node_modules/x'']
     [(''/app/package.json'', manifestOf ''app'' ''1.0.0'' [(''x'', [])]),
      (''/app/node_modules/x/package.json'', manifestOf ''x'' ''1.0.0'' [])]"

definition emptyRangeTree :: BunDependency where
  "emptyRangeTree = BunDependency ''app'' ''1.0.0'' ''.'' ''/app'' [(''x'', [])] []
     (Some [(''x'', BunDependency ''x'' ''1.0.0'' ''1.0.0'' ''/app/node_modules/x'' [] [] None None)])
     None"


text \<open>
  \<open>left-pad\<close> 1.0.0 is installed three times: hoisted at the root, nested under
  \<open>pkg36592\<close> and nested under \<open>pkg66221\<close>. The third one requires \<open>b\<close>,
  installed below it, and \<open>b\<close> requires \<open>left-pad\<close>, which from there is the third
  installation again. The digests of the three \<open>left-pad\<close> paths are their SHA-1 values;
  those of the two nested ones both begin with \<open>8c22c90d\<close>.
\<close>

definition collisionProject :: env where
  "collisionProject = (sampleProject
     [''/app/node_modules/left-pad'', ''/app/node_modules/pkg36592'',
      ''/app/node_modules/pkg36592/node_modules/left-pad'', ''/app/node_modules/pkg66221'',
      ''/app/node_modules/pkg66221/node_modules/left-pad'',
      ''/app/node_modules/pkg66221/node_modules/left-pad/node_modules/b'']
     [(''/app/package.json'', manifestOf ''app'' ''1.0.0''
         [(''left-pad'', ''1.0.0''), (''pkg36592'', ''1.0.0''), (''pkg66221'', ''1.0.0'')]),
      (''/app/node_modules/left-pad/package.json'', manifestOf ''left-pad'' ''1.0.0'' []),
      (''/app/node_modules/pkg36592/package.json'', manifestOf ''pkg36592'' ''1.0.0'' [(''left-pad'', ''1.0.0'')]),
      (''/app/node_modules/pkg36592/node_modules/left-pad/package.json'', manifestOf ''left-pad'' ''1.0.0'' []),
      (''/app/node_modules/pkg66221/package.json'', manifestOf ''pkg66221'' ''1.0.0'' [(''left-pad'', ''1.0.0'')]),
      (''/app/node_modules/pkg66221/node_modules/left-pad/package.json'',
         manifestOf ''left-pad'' ''1.0.0'' [(''b'', ''^1.0.0'')]),
      (''/app/node_modules/pkg66221/node_modules/left-pad/node_modules/b/package.json'',
         manifestOf ''b'' ''1.0.0'' [(''left-pad'', ''1.0.0'')])])
     \<lparr>sha1 := (\<lambda>p.
        if p = ''/app/node_modules/left-pad'' then 0x4f6202cd4aa264ee56bde1b206c7afd93ef1e651
        else if p = ''/app/node_modules/pkg36592/node_modules/left-pad''
          then 0x8c22c90ddf0b4fadb88522ae00b5fa18e02238ad
        else if p = ''/app/node_modules/pkg66221/node_modules/left-pad''
          then 0x8c22c90da42410a59616df39c595e0d5ec2b9037
        else 0xda39a3ee5e6b4b0d3255bfef95601890afd80709)\<rparr>"

definition collisionTree :: BunDependency where
  "collisionTree = BunDependency ''app'' ''1.0.0'' ''.'' ''/app''
     [(''left-pad'', ''1.0.0''), (''pkg36592'', ''1.0.0''), (''pkg66221'', ''1.0.0'')] []
     (Some [(''left-pad'', BunDependency ''left-pad'' ''1.0.0'' ''1.0.0'' ''/app/node_modules/left-pad''
               [] [] None None),
            (''pkg36592'', BunDependency ''pkg36592'' ''1.0.0'' ''1.0.0'' ''/app/node_modules/pkg36592''
               [(''left-pad'', ''1.0.0'')] []
               (Some [(''left-pad'', BunDependency ''left-pad'' ''1.0.0'' ''1.0.0+8c22c90d''
                         ''/app/node_modules/pkg36592/node_modules/left-pad'' [] [] None None)]) None),
            (''pkg66221'', BunDependency ''pkg66221'' ''1.0.0'' ''1.0.0'' ''/app/node_modules/pkg66221''
               [(''left-pad'', ''1.0.0'')] []
               (Some [(''left-pad'', BunDependency ''left-pad'' ''1.0.0'' ''1.0.0+8c22c90d''
                         ''/app/node_modules/pkg66221/node_modules/left-pad'' [(''b'', ''^1.0.0'')] []
                         (Some [(''b'', BunDependency ''b'' ''1.0.0'' ''1.0.0''
                                   ''/app/node_modules/pkg66221/node_modules/left-pad/node_modules/b''
                                   [(''left-pad'', ''1.0.0'')] [] None None)]) None)]) None)])
     None"


section \<open>The reference allocator\<close>

lemma createReference_again:
  "createReference E n v p (snd (createReference E n v p s)) = createReference E n v p s"
  by (auto simp: createReference_def Let_def truthy_def split: option.splits if_splits)

lemma createReference_cached:
  "truthy (referenceByPath s p) \<Longrightarrow> createReference E n v p s = (the (referenceByPath s p), s)"
  by (simp add: createReference_def)

lemma createReference_keeps_reference:
  "truthy (referenceByPath s p) \<Longrightarrow>
   referenceByPath (snd (createReference E n v q s)) p = referenceByPath s p"
  by (auto simp: createReference_def Let_def)

lemma createReference_other_path:
  "q \<noteq> p \<Longrightarrow> referenceByPath (snd (createReference E n v q s)) p = referenceByPath s p"
  by (auto simp: createReference_def Let_def)

lemma createReference_keeps_claim:
  "truthy (pathByNameVersion s key) \<Longrightarrow>
   pathByNameVersion (snd (createReference E n v q s)) key = pathByNameVersion s key"
  by (auto simp: createReference_def Let_def)

lemma createReference_stores_result:
  "fst (createReference E n v p s) \<noteq> [] \<Longrightarrow>
   referenceByPath (snd (createReference E n v p s)) p = Some (fst (createReference E n v p s))"
  by (auto simp: createReference_def Let_def truthy_def split: option.splits)

lemma createReferences_keeps_reference:
  "truthy (referenceByPath s p) \<Longrightarrow>
   referenceByPath (snd (createReferences E calls s)) p = referenceByPath s p"
proof (induction calls arbitrary: s)
  case Nil
  show ?case by simp
next
  case (Cons c calls)
  let ?s' = "snd (createReference E (fst c) (fst (snd c)) (snd (snd c)) s)"
  have k: "referenceByPath ?s' p = referenceByPath s p"
    using Cons.prems by (rule createReference_keeps_reference)
  with Cons.prems have "truthy (referenceByPath ?s' p)" by simp
  from Cons.IH [OF this] k show ?case by (simp add: split_beta Let_def)
qed

lemma createReferences_keeps_claim:
  "truthy (pathByNameVersion s key) \<Longrightarrow>
   pathByNameVersion (snd (createReferences E calls s)) key = pathByNameVersion s key"
proof (induction calls arbitrary: s)
  case Nil
  show ?case by simp
next
  case (Cons c calls)
  let ?s' = "snd (createReference E (fst c) (fst (snd c)) (snd (snd c)) s)"
  have k: "pathByNameVersion ?s' key = pathByNameVersion s key"
    using Cons.prems by (rule createReference_keeps_claim)
  with Cons.prems have "truthy (pathByNameVersion ?s' key)" by simp
  from Cons.IH [OF this] k show ?case by (simp add: split_beta Let_def)
qed

lemma createReferences_other_paths:
  "\<forall>call \<in> set calls. snd (snd call) \<noteq> p \<Longrightarrow>
   referenceByPath (snd (createReferences E calls s)) p = referenceByPath s p"
proof (induction calls arbitrary: s)
  case Nil
  show ?case by simp
next
  case (Cons c calls)
  let ?s' = "snd (createReference E (fst c) (fst (snd c)) (snd (snd c)) s)"
  have k: "referenceByPath ?s' p = referenceByPath s p"
    using Cons.prems by (simp add: createReference_other_path)
  from Cons.prems have "\<forall>call \<in> set calls. snd (snd call) \<noteq> p" by simp
  from Cons.IH [OF this] k show ?case by (simp add: split_beta Let_def)
qed

lemma hexDigit_range: "hexDigit n \<in> set ''0123456789abcdef''"
  unfolding hexDigit_def by (rule nth_mem) simp

lemma digestHex_digits: "set (digestHex w) \<subseteq> set ''0123456789abcdef''"
  unfolding digestHex_def using hexDigit_range by (auto simp del: set_simps list.set)

lemma hash_digits: "set (take 8 (digestHex w)) \<subseteq> set ''0123456789abcdef''"
  using digestHex_digits [of w] set_take_subset [of 8 "digestHex w"] by blast

lemma sample_digest:
  "take 8 (digestHex 0xda39a3ee5e6b4b0d3255bfef95601890afd80709) = ''da39a3ee''"
  by (simp add: digestHex_def hexDigit_def unat_drop_bit_eq take_map upt_conv_Cons)

lemma nested_digest_36592:
  "take 8 (digestHex 0x8c22c90ddf0b4fadb88522ae00b5fa18e02238ad) = ''8c22c90d''"
  by (simp add: digestHex_def hexDigit_def unat_drop_bit_eq take_map upt_conv_Cons)

lemma nested_digest_66221:
  "take 8 (digestHex 0x8c22c90da42410a59616df39c595e0d5ec2b9037) = ''8c22c90d''"
  by (simp add: digestHex_def hexDigit_def unat_drop_bit_eq take_map upt_conv_Cons)

text \<open>
  What repeating an allocation does keep: \<open>k\<close> calls in a row with the same name, version and
  real path return \<open>k\<close> times the reference of the first, and the call after the first leaves
  the collector as the first left it. When the reference first allocated is not the empty string,
  it is also what every later call for that path returns, whatever name and version it is given
  and whatever other allocations came between.
\<close>

lemma createReference_repeated:
  "fst (createReferenceTimes k E name' version' realDir s)
     = replicate k (fst (createReference E name' version' realDir s))
   \<and> createReference E name' version' realDir (snd (createReference E name' version' realDir s))
       = createReference E name' version' realDir s
   \<and> (fst (createReference E name' version' realDir s) \<noteq> [] \<longrightarrow>
        fst (createReference E name2 version2 realDir
              (snd (createReferences E calls (snd (createReference E name' version' realDir s)))))
        = fst (createReference E name' version' realDir s))"
proof (intro conjI impI)
  show "fst (createReferenceTimes k E name' version' realDir s)
     = replicate k (fst (createReference E name' version' realDir s))"
  proof (induction k arbitrary: s)
    case 0
    show ?case by simp
  next
    case (Suc k)
    have "fst (createReferenceTimes k E name' version' realDir (snd (createReference E name' version' realDir s)))
        = replicate k (fst (createReference E name' version' realDir s))"
      using Suc.IH [of "snd (createReference E name' version' realDir s)"]
      by (simp add: createReference_again)
    then show ?case by (simp add: split_beta Let_def)
  qed
next
  show "createReference E name' version' realDir (snd (createReference E name' version' realDir s))
       = createReference E name' version' realDir s"
    by (rule createReference_again)
next
  let ?r = "fst (createReference E name' version' realDir s)"
  let ?s1 = "snd (createReference E name' version' realDir s)"
  let ?s2 = "snd (createReferences E calls ?s1)"
  assume nonempty: "?r \<noteq> []"
  then have stored: "referenceByPath ?s1 realDir = Some ?r"
    by (rule createReference_stores_result)
  with nonempty have "truthy (referenceByPath ?s1 realDir)" by (simp add: truthy_def)
  then have "referenceByPath ?s2 realDir = Some ?r"
    using stored by (simp add: createReferences_keeps_reference)
  with nonempty have "createReference E name2 version2 realDir ?s2 = (?r, ?s2)"
    by (simp add: createReference_cached truthy_def)
  then show "fst (createReference E name2 version2 realDir ?s2) = ?r" by simp
qed


text \<open>
  C2. Two distinct real paths are allocated, each for the first time, with the same name and
  version; any number of allocations for further paths may come between. A real path is not the
  empty string.

  \<^item> When nothing has claimed the name and version yet, the first path gets the plain version
    string and the second the version, a \<open>+\<close> and the first eight hexadecimal digits of the
    SHA-1 digest of its own path.
  \<^item> When a third path has claimed the name and version, each of the two gets the version, a
    \<open>+\<close> and the first eight hexadecimal digits of the digest of its own path.
  \<^item> The two references are equal exactly when a third path has claimed the name and version
    and the two digests agree in their first eight hexadecimal digits: nothing checks the
    suffixed reference against those already given out.
\<close>

theorem createReference_disambiguates:
  assumes distinct_paths: "realDir1 \<noteq> realDir2"
    and real_path: "realDir1 \<noteq> []"
    and fresh1: "\<not> truthy (referenceByPath s realDir1)"
    and fresh2: "\<not> truthy (referenceByPath s realDir2)"
    and between: "\<forall>call \<in> set calls. snd (snd call) \<noteq> realDir2"
  shows "let v = orDefault version' ''0.0.0'';
             claimed = pathByNameVersion s (name' @ ''@'' @ v);
             hash1 = take 8 (digestHex (sha1 E realDir1));
             hash2 = take 8 (digestHex (sha1 E realDir2));
             reference1 = fst (createReference E name' version' realDir1 s);
             reference2 = fst (createReference E name' version' realDir2
                (snd (createReferences E calls (snd (createReference E name' version' realDir1 s)))))
         in (\<not> truthy claimed \<longrightarrow> reference1 = v \<and> reference2 = v @ ''+'' @ hash2)
          \<and> (truthy claimed \<and> claimed \<noteq> Some realDir1 \<and> claimed \<noteq> Some realDir2 \<longrightarrow>
               reference1 = v @ ''+'' @ hash1 \<and> reference2 = v @ ''+'' @ hash2)
          \<and> length hash1 = 8 \<and> set hash1 \<subseteq> set ''0123456789abcdef''
          \<and> length hash2 = 8 \<and> set hash2 \<subseteq> set ''0123456789abcdef''
          \<and> (reference1 = reference2 \<longleftrightarrow>
               truthy claimed \<and> claimed \<noteq> Some realDir1 \<and> claimed \<noteq> Some realDir2 \<and> hash1 = hash2)"
proof -
  let ?v = "orDefault version' ''0.0.0''"
  let ?key = "name' @ ''@'' @ ?v"
  let ?e = "pathByNameVersion s ?key"
  let ?s1 = "snd (createReference E name' version' realDir1 s)"
  let ?s2 = "snd (createReferences E calls ?s1)"
  let ?h1 = "take 8 (digestHex (sha1 E realDir1))"
  let ?h2 = "take 8 (digestHex (sha1 E realDir2))"
  let ?r1 = "fst (createReference E name' version' realDir1 s)"
  let ?r2 = "fst (createReference E name' version' realDir2 ?s2)"
  have len1: "length ?h1 = 8" and len2: "length ?h2 = 8" by (simp_all add: digestHex_def)
  have suffixed: "?v \<noteq> ?v @ ''+'' @ h" for h
  proof -
    have "length (?v @ ''+'' @ h) \<noteq> length ?v" by simp
    then show ?thesis by metis
  qed
  have r1: "?r1 = (if truthy ?e \<and> ?e \<noteq> Some realDir1 then ?v @ ''+'' @ ?h1 else ?v)"
    using fresh1 by (auto simp: createReference_def Let_def)
  have claim1: "pathByNameVersion ?s1 ?key = (if truthy ?e then ?e else Some realDir1)"
    using fresh1 by (auto simp: createReference_def Let_def)
  with real_path have t: "truthy (pathByNameVersion ?s1 ?key)" by (auto simp: truthy_def)
  then have claim2: "pathByNameVersion ?s2 ?key = (if truthy ?e then ?e else Some realDir1)"
    using claim1 by (simp add: createReferences_keeps_claim)
  with t claim1 have t2: "truthy (pathByNameVersion ?s2 ?key)" by simp
  have "referenceByPath ?s1 realDir2 = referenceByPath s realDir2"
    using distinct_paths by (simp add: createReference_other_path)
  then have fresh2': "\<not> truthy (referenceByPath ?s2 realDir2)"
    using fresh2 between by (simp add: createReferences_other_paths)
  have "?r2 = (if pathByNameVersion ?s2 ?key = Some realDir2 then ?v else ?v @ ''+'' @ ?h2)"
    using fresh2' t2 by (auto simp: createReference_def Let_def)
  with claim2 distinct_paths
  have r2: "?r2 = (if truthy ?e \<and> ?e = Some realDir2 then ?v else ?v @ ''+'' @ ?h2)"
    by auto
  have A: "\<not> truthy ?e \<longrightarrow> ?r1 = ?v \<and> ?r2 = ?v @ ''+'' @ ?h2"
    using r1 r2 by simp
  have B: "truthy ?e \<and> ?e \<noteq> Some realDir1 \<and> ?e \<noteq> Some realDir2 \<longrightarrow>
             ?r1 = ?v @ ''+'' @ ?h1 \<and> ?r2 = ?v @ ''+'' @ ?h2"
    using r1 r2 by simp
  have C: "?r1 = ?r2 \<longleftrightarrow> truthy ?e \<and> ?e \<noteq> Some realDir1 \<and> ?e \<noteq> Some realDir2 \<and> ?h1 = ?h2"
  proof (cases "truthy ?e \<and> ?e \<noteq> Some realDir1")
    case False
    then have "?r1 = ?v" using r1 by simp
    moreover have "?r2 = ?v @ ''+'' @ ?h2" using False r2 distinct_paths by auto
    ultimately show ?thesis using False suffixed [of ?h2] by auto
  next
    case True
    note first = this
    then have r1': "?r1 = ?v @ ''+'' @ ?h1" using r1 by simp
    show ?thesis
    proof (cases "?e = Some realDir2")
      case True
      with first r2 have "?r2 = ?v" by simp
      with r1' True suffixed [of ?h1] show ?thesis by auto
    next
      case False
      with r2 have "?r2 = ?v @ ''+'' @ ?h2" by simp
      with r1' first False show ?thesis by simp
    qed
  qed
  from A B C len1 len2 hash_digits [of "sha1 E realDir1"] hash_digits [of "sha1 E realDir2"]
  show ?thesis unfolding Let_def by blast
qed

theorem createReference_disambiguates_witness:
  "''/app/node_modules/left-pad'' \<noteq> ''/app/node_modules/pkg36592/node_modules/left-pad''
   \<and> ''/app/node_modules/left-pad'' \<noteq> []
   \<and> \<not> truthy (referenceByPath initialCollector ''/app/node_modules/left-pad'')
   \<and> \<not> truthy (referenceByPath initialCollector ''/app/node_modules/pkg36592/node_modules/left-pad'')
   \<and> \<not> truthy (pathByNameVersion initialCollector (''left-pad'' @ ''@'' @ orDefault (Some ''1.0.0'') ''0.0.0''))
   \<and> fst (createReference collisionProject ''left-pad'' (Some ''1.0.0'') ''/app/node_modules/left-pad''
            initialCollector) = ''1.0.0''
   \<and> fst (createReference collisionProject ''left-pad'' (Some ''1.0.0'')
            ''/app/node_modules/pkg36592/node_modules/left-pad''
            (snd (createReferences collisionProject
                   [(''pkg36592'', Some ''1.0.0'', ''/app/node_modules/pkg36592'')]
                   (snd (createReference collisionProject ''left-pad'' (Some ''1.0.0'')
                          ''/app/node_modules/left-pad'' initialCollector)))))
       = ''1.0.0+8c22c90d''"
proof -
  have h1: "''/app/node_modules/left-pad'' \<noteq> ''/app/node_modules/pkg36592/node_modules/left-pad''"
    by simp
  have h2: "''/app/node_modules/left-pad'' \<noteq> []" by simp
  have h3: "\<not> truthy (referenceByPath initialCollector ''/app/node_modules/left-pad'')"
    by (simp add: initialCollector_def truthy_def)
  have h4: "\<not> truthy (referenceByPath initialCollector
                 ''/app/node_modules/pkg36592/node_modules/left-pad'')"
    by (simp add: initialCollector_def truthy_def)
  have h5: "\<not> truthy (pathByNameVersion initialCollector
                 (''left-pad'' @ ''@'' @ orDefault (Some ''1.0.0'') ''0.0.0''))"
    by (simp add: initialCollector_def truthy_def)
  have h6: "\<forall>call \<in> set [(''pkg36592'', Some ''1.0.0'', ''/app/node_modules/pkg36592'')].
              snd (snd call) \<noteq> ''/app/node_modules/pkg36592/node_modules/left-pad''"
    by simp
  have sha: "sha1 collisionProject ''/app/node_modules/pkg36592/node_modules/left-pad''
      = 0x8c22c90ddf0b4fadb88522ae00b5fa18e02238ad"
    by (simp add: collisionProject_def sampleProject_def)
  from createReference_disambiguates
    [OF h1 h2 h3 h4 h6, where E = collisionProject and name' = "''left-pad''"
       and version' = "Some ''1.0.0''", unfolded Let_def]
    h5
  have "fst (createReference collisionProject ''left-pad'' (Some ''1.0.0'') ''/app/node_modules/left-pad''
            initialCollector) = orDefault (Some ''1.0.0'') ''0.0.0''
     \<and> fst (createReference collisionProject ''left-pad'' (Some ''1.0.0'')
            ''/app/node_modules/pkg36592/node_modules/left-pad''
            (snd (createReferences collisionProject
                   [(''pkg36592'', Some ''1.0.0'', ''/app/node_modules/pkg36592'')]
                   (snd (createReference collisionProject ''left-pad'' (Some ''1.0.0'')
                          ''/app/node_modules/left-pad'' initialCollector)))))
       = orDefault (Some ''1.0.0'') ''0.0.0'' @ ''+''
           @ take 8 (digestHex (sha1 collisionProject ''/app/node_modules/pkg36592/node_modules/left-pad''))"
    by blast
  with h1 h3 h4 h5 show ?thesis
    by (simp add: sha nested_digest_36592 orDefault_def)
qed

text \<open>
  The two nested \<open>left-pad\<close> 1.0.0 installations of the collision project, allocated after the
  hoisted one, get the same reference: the SHA-1 digests of their paths,
  \<open>8c22c90ddf0b4fadb88522ae00b5fa18e02238ad\<close> and \<open>8c22c90da42410a59616df39c595e0d5ec2b9037\<close>,
  agree in the eight digits that are kept.
\<close>

theorem createReference_collision:
  "''/app/node_modules/pkg36592/node_modules/left-pad''
     \<noteq> ''/app/node_modules/pkg66221/node_modules/left-pad''
   \<and> fst (createReferences collisionProject
            [(''left-pad'', Some ''1.0.0'', ''/app/node_modules/left-pad''),
             (''left-pad'', Some ''1.0.0'', ''/app/node_modules/pkg36592/node_modules/left-pad''),
             (''left-pad'', Some ''1.0.0'', ''/app/node_modules/pkg66221/node_modules/left-pad'')]
            initialCollector)
       = [''1.0.0'', ''1.0.0+8c22c90d'', ''1.0.0+8c22c90d'']"
  by (simp add: createReference_def initialCollector_def truthy_def orDefault_def Let_def
      collisionProject_def sampleProject_def nested_digest_36592 nested_digest_66221)

section \<open>parseDependenciesTree\<close>

text \<open>
  C9. \<^verbatim>\<open>parseDependenciesTree\<close> fails for every blob: it throws its error and returns no
  dependency tree.
\<close>

theorem parseDependenciesTree_always_fails:
  "parseDependenciesTree jsonBlob
     = Inl (Error ''BunNodeModulesCollector does not parse external dependency trees'')
   \<and> (\<nexists>tree. parseDependenciesTree jsonBlob = Inr tree)"
  by (simp add: parseDependenciesTree_def)

section \<open>The installed-path resolver\<close>

lemma ancestorDir_parent: "ancestorDir E i (pathDirname E dir) = ancestorDir E (Suc i) dir"
  by (simp add: ancestorDir_def funpow_swap1)

lemma findInstalledDependency_loop_walk:
  "walkStops E (ancestorDir E k dir) \<Longrightarrow> (\<forall>i<k. \<not> walkStops E (ancestorDir E i dir)) \<Longrightarrow>
   findInstalledDependency_loop E (pathResolve E (rootDir E)) n dir =
     Some (List.find (pathExists E)
       (map (\<lambda>i. pathJoin E [ancestorDir E i dir, ''node_modules'', n]) [0..<Suc k]))"
proof (induction k arbitrary: dir)
  case 0
  then show ?case
    by (subst findInstalledDependency_loop.simps) (auto simp: ancestorDir_def walkStops_def Let_def)
next
  case (Suc k)
  let ?p = "pathDirname E dir"
  have nstop: "\<not> walkStops E dir"
    using Suc.prems(2) [rule_format, of 0] by (simp add: ancestorDir_def)
  have stop': "walkStops E (ancestorDir E k ?p)"
    using Suc.prems(1) by (simp add: ancestorDir_parent)
  have nstop': "\<forall>i<k. \<not> walkStops E (ancestorDir E i ?p)"
    using Suc.prems(2) by (auto simp: ancestorDir_parent)
  have ih: "findInstalledDependency_loop E (pathResolve E (rootDir E)) n ?p =
     Some (List.find (pathExists E)
       (map (\<lambda>i. pathJoin E [ancestorDir E i ?p, ''node_modules'', n]) [0..<Suc k]))"
    by (rule Suc.IH [OF stop' nstop'])
  have maps: "map (\<lambda>i. pathJoin E [ancestorDir E i dir, ''node_modules'', n]) [0..<Suc (Suc k)]
     = pathJoin E [dir, ''node_modules'', n] #
       map (\<lambda>i. pathJoin E [ancestorDir E i ?p, ''node_modules'', n]) [0..<Suc k]"
    unfolding ancestorDir_parent
    by (subst upt_conv_Cons, simp, subst map_Suc_upt [symmetric]) (simp add: ancestorDir_def del: upt_Suc)
  show ?case
    apply (subst findInstalledDependency_loop.simps)
    apply (subst maps)
    using nstop ih apply (auto simp: walkStops_def Let_def simp del: upt_Suc)
    done
qed

lemma find_snoc:
  "List.find P (xs @ [r]) =
     (case List.find P xs of Some x \<Rightarrow> Some x | None \<Rightarrow> if P r then Some r else None)"
  by (induction xs) auto

text \<open>
  C6. When the upward walk from the requester directory stops at the \<open>k\<close>-th ancestor (the
  first that resolves to the project root or is its own parent), \<^verbatim>\<open>findInstalledDependency\<close>
  comes back with the first existing candidate in the search order: the requester directory, its
  ancestors in turn up to that one, and last the resolved project root. When no candidate exists
  the result is "not found", a value and not an error.
\<close>

theorem findInstalledDependency_search_order:
  assumes stops: "walkStops E (ancestorDir E k startDir)"
    and before: "\<forall>i<k. \<not> walkStops E (ancestorDir E i startDir)"
  shows "findInstalledDependency E startDir dependencyName
    = Some (List.find (pathExists E) (searchCandidates E k startDir dependencyName))"
proof -
  let ?walk = "map (\<lambda>i. pathJoin E [ancestorDir E i startDir, ''node_modules'', dependencyName]) [0..<Suc k]"
  have loop: "findInstalledDependency_loop E (pathResolve E (rootDir E)) dependencyName startDir
      = Some (List.find (pathExists E) ?walk)"
    using stops before by (rule findInstalledDependency_loop_walk)
  show ?thesis
    unfolding findInstalledDependency_def searchCandidates_def Let_def loop find_snoc
    by (simp split: option.splits)
qed

theorem findInstalledDependency_search_order_witness:
  "walkStops hoistedProject (ancestorDir hoistedProject 3 ''/app/packages/ui/src'')
   \<and> \<not> walkStops hoistedProject (ancestorDir hoistedProject 0 ''/app/packages/ui/src'')
   \<and> \<not> walkStops hoistedProject (ancestorDir hoistedProject 1 ''/app/packages/ui/src'')
   \<and> \<not> walkStops hoistedProject (ancestorDir hoistedProject 2 ''/app/packages/ui/src'')
   \<and> searchCandidates hoistedProject 3 ''/app/packages/ui/src'' ''lodash''
       = [''/app/packages/ui/src/node_modules/lodash'', ''/app/packages/ui/node_modules/lodash'',
          ''/app/packages/node_modules/lodash'', ''/app/node_modules/lodash'', ''/app/node_modules/lodash'']
   \<and> findInstalledDependency hoistedProject ''/app/packages/ui/src'' ''lodash''
       = Some (Some ''/app/node_modules/lodash'')
   \<and> findInstalledDependency hoistedProject ''/app/packages/ui/src'' ''c'' = Some None"
proof -
  have stops: "walkStops hoistedProject (ancestorDir hoistedProject 3 ''/app/packages/ui/src'')"
    by code_simp
  have n0: "\<not> walkStops hoistedProject (ancestorDir hoistedProject 0 ''/app/packages/ui/src'')"
    by code_simp
  have n1: "\<not> walkStops hoistedProject (ancestorDir hoistedProject 1 ''/app/packages/ui/src'')"
    by code_simp
  have n2: "\<not> walkStops hoistedProject (ancestorDir hoistedProject 2 ''/app/packages/ui/src'')"
    by code_simp
  have before: "\<forall>i<3. \<not> walkStops hoistedProject (ancestorDir hoistedProject i ''/app/packages/ui/src'')"
  proof (intro allI impI)
    fix i :: nat
    assume "i < 3"
    then consider "i = 0" | "i = 1" | "i = 2" by linarith
    then show "\<not> walkStops hoistedProject (ancestorDir hoistedProject i ''/app/packages/ui/src'')"
      using n0 n1 n2 by cases simp_all
  qed
  have cands: "searchCandidates hoistedProject 3 ''/app/packages/ui/src'' ''lodash''
       = [''/app/packages/ui/src/node_modules/lodash'', ''/app/packages/ui/node_modules/lodash'',
          ''/app/packages/node_modules/lodash'', ''/app/node_modules/lodash'', ''/app/node_modules/lodash'']"
    by code_simp
  have found: "List.find (pathExists hoistedProject)
       (searchCandidates hoistedProject 3 ''/app/packages/ui/src'' ''lodash'') = Some ''/app/node_modules/lodash''"
    by code_simp
  have missing: "List.find (pathExists hoistedProject)
       (searchCandidates hoistedProject 3 ''/app/packages/ui/src'' ''c'') = None"
    by code_simp
  from findInstalledDependency_search_order [OF stops before, of "''lodash''"]
       findInstalledDependency_search_order [OF stops before, of "''c''"]
       stops n0 n1 n2 cands found missing
  show ?thesis by simp
qed

section \<open>The tree build\<close>

declare loadDependency.simps [simp del] resolveChildren.simps [simp del]

subsection \<open>One step of loadDependency, branch by branch\<close>



lemma frame_refl: "frame E s s" by (simp add: frame_def)
lemma frame_trans: "frame E s s' \<Longrightarrow> frame E s' s'' \<Longrightarrow> frame E s s''" by (simp add: frame_def)
lemma frame_log: "frame E s (s\<lparr>debugLog := l\<rparr>)" by (simp add: frame_def)

lemma createReference_frame:
  "processingPaths (snd (createReference E n v p s)) = processingPaths s
   \<and> dependencyCacheByPath (snd (createReference E n v p s)) = dependencyCacheByPath s
   \<and> debugLog (snd (createReference E n v p s)) = debugLog s"
  by (auto simp: createReference_def Let_def)

lemma loadDependency_walk_unfinished:
  "findInstalledDependency E requesterDir alias = None \<Longrightarrow>
   loadDependency fuel E alias requesterDir isOptional s = (Unfinished, s)"
  by (simp add: loadDependency.simps)

lemma loadDependency_not_found:
  "findInstalledDependency E requesterDir alias = Some None \<Longrightarrow>
   loadDependency fuel E alias requesterDir isOptional s =
     (Returned None, if isOptional then s else s\<lparr>debugLog := debugLog s @ [(alias, requesterDir)]\<rparr>)"
  by (simp add: loadDependency.simps)

lemma loadDependency_cached:
  "findInstalledDependency E requesterDir alias = Some (Some installedPath) \<Longrightarrow>
   dependencyCacheByPath s (resolvePath E installedPath) = Some cached \<Longrightarrow>
   loadDependency fuel E alias requesterDir isOptional s = (Returned (Some cached), s)"
  by (simp add: loadDependency.simps)

lemma loadDependency_in_progress:
  "findInstalledDependency E requesterDir alias = Some (Some installedPath) \<Longrightarrow>
   resolvePath E installedPath \<in> processingPaths s \<Longrightarrow>
   loadDependency fuel E alias requesterDir isOptional s =
     (Returned (dependencyCacheByPath s (resolvePath E installedPath)), s)"
  by (cases "dependencyCacheByPath s (resolvePath E installedPath)")
     (simp_all add: loadDependency.simps Let_def)

lemma loadDependency_manifest_error:
  "findInstalledDependency E requesterDir alias = Some (Some installedPath) \<Longrightarrow>
   dependencyCacheByPath s (resolvePath E installedPath) = None \<Longrightarrow>
   resolvePath E installedPath \<notin> processingPaths s \<Longrightarrow>
   readPackageJson E (resolvePath E installedPath) = Inl e \<Longrightarrow>
   loadDependency fuel E alias requesterDir isOptional s = (Threw e, s)"
  by (simp add: loadDependency.simps insert_absorb Diff_insert_absorb)

lemma loadDependency_no_fuel:
  "findInstalledDependency E requesterDir alias = Some (Some installedPath) \<Longrightarrow>
   dependencyCacheByPath s (resolvePath E installedPath) = None \<Longrightarrow>
   resolvePath E installedPath \<notin> processingPaths s \<Longrightarrow>
   readPackageJson E (resolvePath E installedPath) = Inr manifest \<Longrightarrow>
   loadDependency 0 E alias requesterDir isOptional s = (Unfinished, s)"
  by (simp add: loadDependency.simps Let_def)

lemma loadDependency_descend:
  "findInstalledDependency E requesterDir alias = Some (Some installedPath) \<Longrightarrow>
   dependencyCacheByPath s (resolvePath E installedPath) = None \<Longrightarrow>
   resolvePath E installedPath \<notin> processingPaths s \<Longrightarrow>
   readPackageJson E (resolvePath E installedPath) = Inr manifest \<Longrightarrow>
   loadDependency (Suc fuel) E alias requesterDir isOptional s =
     afterChildren E alias (resolvePath E installedPath) manifest
       (resolveChildren fuel E (resolvePath E installedPath) (orEmpty (pkgDependencies manifest))
          (orEmpty (pkgOptionalDependencies manifest))
          (s\<lparr>processingPaths := insert (resolvePath E installedPath) (processingPaths s)\<rparr>))"
  by (simp add: loadDependency.simps Let_def afterChildren_def split_beta
           split: prod.splits outcome.splits)

lemma afterChildren_frame:
  assumes loaded: "realDir \<in> loadedDirs E"
    and fresh: "realDir \<notin> processingPaths s"
    and fr: "frame E (s\<lparr>processingPaths := insert realDir (processingPaths s)\<rparr>) (snd r)"
  shows "frame E s (snd (afterChildren E alias realDir manifest r))"
proof (cases "fst r")
  case Unfinished
  with fr fresh show ?thesis by (auto simp: afterChildren_def frame_def)
next
  case (Threw e)
  with fr fresh show ?thesis by (auto simp: afterChildren_def frame_def)
next
  case (Returned childMaps)
  let ?created = "createReference E (orDefault (pkgName manifest) alias) (pkgVersion manifest) realDir (snd r)"
  have c: "processingPaths (snd ?created) = processingPaths (snd r)"
    "dependencyCacheByPath (snd ?created) = dependencyCacheByPath (snd r)"
    using createReference_frame [of E _ _ realDir "snd r"] by simp_all
  have o: "p \<noteq> realDir \<Longrightarrow> referenceByPath (snd ?created) p = referenceByPath (snd r) p" for p
    by (simp add: createReference_other_path)
  from Returned fr fresh loaded c o show ?thesis
    by (auto simp: afterChildren_def frame_def Let_def)
qed

lemma loadDependency_frame_step:
  assumes children:
    "\<And>fuel' dir md mo s. fuel = Suc fuel' \<Longrightarrow> frame E s (snd (resolveChildren fuel' E dir md mo s))"
  shows "frame E s (snd (loadDependency fuel E alias requesterDir isOptional s))"
proof (cases "findInstalledDependency E requesterDir alias")
  case None
  then show ?thesis by (simp add: loadDependency_walk_unfinished frame_refl)
next
  case (Some found)
  show ?thesis
  proof (cases found)
    case None
    with Some show ?thesis by (simp add: loadDependency_not_found frame_refl frame_log)
  next
    case (Some installedPath)
    note found = \<open>findInstalledDependency E requesterDir alias = Some found\<close> [unfolded Some]
    let ?realDir = "resolvePath E installedPath"
    have inst: "?realDir \<in> installedDirs E"
      using found by (auto simp: installedDirs_def)
    show ?thesis
    proof (cases "?realDir \<in> processingPaths s")
      case True
      with found show ?thesis by (simp add: loadDependency_in_progress frame_refl)
    next
      case False
      note fresh = this
      show ?thesis
      proof (cases "dependencyCacheByPath s ?realDir")
        case (Some cached)
        with found show ?thesis by (simp add: loadDependency_cached frame_refl)
      next
        case None
        note uncached = this
        show ?thesis
        proof (cases "readPackageJson E ?realDir")
          case (Inl e)
          with found uncached fresh show ?thesis
            by (simp add: loadDependency_manifest_error frame_refl)
        next
          case (Inr manifest)
          then have loaded: "?realDir \<in> loadedDirs E" using inst by (simp add: loadedDirs_def)
          show ?thesis
          proof (cases fuel)
            case 0
            with found uncached fresh Inr show ?thesis
              by (simp add: loadDependency_no_fuel frame_refl)
          next
            case (Suc fuel')
            with found uncached fresh Inr loaded show ?thesis
              by (simp add: loadDependency_descend afterChildren_frame children)
          qed
        qed
      qed
    qed
  qed
qed

lemma resolveAliases_frame_step:
  assumes load: "\<And>a s. frame E s (snd (loadDependency fuel E a dir opt s))"
  shows "frame E s (snd (resolveAliases fuel E dir opt aliases acc s))"
proof (induction aliases arbitrary: acc s)
  case Nil
  show ?case by (simp add: frame_refl)
next
  case (Cons a aliases)
  obtain r s' where eq: "loadDependency fuel E a dir opt s = (r, s')"
    by (cases "loadDependency fuel E a dir opt s")
  have l: "frame E s s'" using load [of s a] by (simp add: eq)
  show ?case
  proof (cases r)
    case Unfinished
    with eq l show ?thesis by simp
  next
    case (Threw e)
    with eq l show ?thesis by simp
  next
    case (Returned dep)
    show ?thesis
    proof (cases dep)
      case None
      with Returned eq frame_trans [OF l Cons.IH [where acc = acc and s = s']] show ?thesis by simp
    next
      case (Some d)
      with Returned eq frame_trans [OF l Cons.IH [where acc = "assignProperty a d acc" and s = s']] show ?thesis by simp
    qed
  qed
qed

lemma resolveChildren_frame_step:
  assumes load: "\<And>a opt s. frame E s (snd (loadDependency fuel E a dir opt s))"
  shows "frame E s (snd (resolveChildren fuel E dir md mo s))"
proof -
  obtain r s' where eq: "resolveAliases fuel E dir False (map fst md) [] s = (r, s')"
    by (cases "resolveAliases fuel E dir False (map fst md) [] s")
  have a: "frame E s s'"
    using resolveAliases_frame_step [of E fuel dir False s "map fst md" "[]"] load by (simp add: eq)
  show ?thesis
  proof (cases r)
    case Unfinished
    with eq a show ?thesis by (simp add: resolveChildren.simps)
  next
    case (Threw e)
    with eq a show ?thesis by (simp add: resolveChildren.simps)
  next
    case (Returned ds)
    obtain r' s'' where eq': "resolveAliases fuel E dir True (map fst mo) [] s' = (r', s'')"
      by (cases "resolveAliases fuel E dir True (map fst mo) [] s'")
    have "frame E s' s''"
      using resolveAliases_frame_step [of E fuel dir True s' "map fst mo" "[]"] load by (simp add: eq')
    with a have ab: "frame E s s''" by (rule frame_trans)
    from Returned eq eq' ab show ?thesis
      by (cases r') (simp_all add: resolveChildren.simps)
  qed
qed

lemma frame_all:
  "(\<forall>a dir opt s. frame E s (snd (loadDependency fuel E a dir opt s)))
   \<and> (\<forall>dir md mo s. frame E s (snd (resolveChildren fuel E dir md mo s)))"
proof (induction fuel)
  case 0
  have l: "frame E s (snd (loadDependency 0 E a dir opt s))" for a dir opt s
    by (rule loadDependency_frame_step) simp
  show ?case
  proof (intro conjI allI)
    fix a dir opt s md mo
    show "frame E s (snd (loadDependency 0 E a dir opt s))" by (rule l)
    show "frame E s (snd (resolveChildren 0 E dir md mo s))"
      by (rule resolveChildren_frame_step) (rule l)
  qed
next
  case (Suc fuel)
  have l: "frame E s (snd (loadDependency (Suc fuel) E a dir opt s))" for a dir opt s
    by (rule loadDependency_frame_step) (use Suc.IH in auto)
  show ?case
  proof (intro conjI allI)
    fix a dir opt s md mo
    show "frame E s (snd (loadDependency (Suc fuel) E a dir opt s))" by (rule l)
    show "frame E s (snd (resolveChildren (Suc fuel) E dir md mo s))"
      by (rule resolveChildren_frame_step) (rule l)
  qed
qed

subsection \<open>Which aliases reach the resolved maps\<close>






subsection \<open>Failures of the manifest reader\<close>

lemma resolveAliases_throws:
  "loadDependency fuel E a dir opt s = (Threw e, s') \<Longrightarrow>
   resolveAliases fuel E dir opt (a # aliases) acc s = (Threw e, s')"
  by simp

lemma resolveChildren_throws_required:
  "resolveAliases fuel E dir False (map fst md) [] s = (Threw e, s') \<Longrightarrow>
   resolveChildren fuel E dir md mo s = (Threw e, s')"
  by (simp add: resolveChildren.simps)

lemma resolveChildren_throws_optional:
  "resolveAliases fuel E dir False (map fst md) [] s = (Returned ds, s') \<Longrightarrow>
   resolveAliases fuel E dir True (map fst mo) [] s' = (Threw e, s'') \<Longrightarrow>
   resolveChildren fuel E dir md mo s = (Threw e, s'')"
  by (simp add: resolveChildren.simps)

lemma getDependenciesTree_frame: "frame E s (snd (getDependenciesTree fuel E s))"
proof (cases "readPackageJson E (rootDir E)")
  case (Inl e)
  then show ?thesis by (simp add: getDependenciesTree_def frame_refl)
next
  case (Inr rootManifest)
  let ?rc = "resolveChildren fuel E (rootDir E) (orEmpty (pkgDependencies rootManifest))
               (orEmpty (pkgOptionalDependencies rootManifest)) s"
  obtain r s' where eq: "?rc = (r, s')" by (cases ?rc)
  have "frame E s (snd ?rc)" using frame_all [of E fuel] by blast
  with eq have "frame E s s'" by simp
  with Inr eq show ?thesis by (cases r) (simp_all add: getDependenciesTree_def Let_def)
qed

text \<open>
  C8. When the manifest of a directory cannot be required, \<^verbatim>\<open>readPackageJson\<close> throws.
  \<^verbatim>\<open>loadDependency\<close> for that directory throws the same error and leaves the collector as it
  found it; an error thrown by \<^verbatim>\<open>loadDependency\<close> leaves the loop of
  \<^verbatim>\<open>resolveChildren\<close> at once, an error thrown by \<^verbatim>\<open>resolveChildren\<close> leaves the
  enclosing \<^verbatim>\<open>loadDependency\<close> (through its \<^verbatim>\<open>finally\<close> block) and
  \<^verbatim>\<open>getDependenciesTree\<close>; nothing catches it. No run of \<^verbatim>\<open>getDependenciesTree\<close> puts
  a node for that directory into the path cache.
\<close>

theorem readPackageJson_failure_is_fatal:
  assumes unreadable: "requireJson E (pathJoin E [realDir, ''package.json'']) = Inl message"
  shows "readPackageJson E realDir
           = Inl (Error (''Unable to read package.json for '' @ realDir @ '': '' @ message))
    \<and> (\<forall>fuel alias requesterDir isOptional installedPath s.
          findInstalledDependency E requesterDir alias = Some (Some installedPath) \<longrightarrow>
          resolvePath E installedPath = realDir \<longrightarrow>
          dependencyCacheByPath s realDir = None \<longrightarrow> realDir \<notin> processingPaths s \<longrightarrow>
          loadDependency fuel E alias requesterDir isOptional s
            = (Threw (Error (''Unable to read package.json for '' @ realDir @ '': '' @ message)), s))
    \<and> (\<forall>fuel alias aliases requesterDir isOptional acc e s s'.
          loadDependency fuel E alias requesterDir isOptional s = (Threw e, s') \<longrightarrow>
          resolveAliases fuel E requesterDir isOptional (alias # aliases) acc s = (Threw e, s'))
    \<and> (\<forall>fuel requesterDir md mo e s s'.
          resolveAliases fuel E requesterDir False (map fst md) [] s = (Threw e, s') \<longrightarrow>
          resolveChildren fuel E requesterDir md mo s = (Threw e, s'))
    \<and> (\<forall>fuel requesterDir md mo ds e s s' s''.
          resolveAliases fuel E requesterDir False (map fst md) [] s = (Returned ds, s') \<longrightarrow>
          resolveAliases fuel E requesterDir True (map fst mo) [] s' = (Threw e, s'') \<longrightarrow>
          resolveChildren fuel E requesterDir md mo s = (Threw e, s''))
    \<and> (\<forall>fuel alias requesterDir isOptional installedPath manifest e s s2.
          findInstalledDependency E requesterDir alias = Some (Some installedPath) \<longrightarrow>
          dependencyCacheByPath s (resolvePath E installedPath) = None \<longrightarrow>
          resolvePath E installedPath \<notin> processingPaths s \<longrightarrow>
          readPackageJson E (resolvePath E installedPath) = Inr manifest \<longrightarrow>
          resolveChildren fuel E (resolvePath E installedPath) (orEmpty (pkgDependencies manifest))
            (orEmpty (pkgOptionalDependencies manifest))
            (s\<lparr>processingPaths := insert (resolvePath E installedPath) (processingPaths s)\<rparr>)
            = (Threw e, s2) \<longrightarrow>
          loadDependency (Suc fuel) E alias requesterDir isOptional s
            = (Threw e, s2\<lparr>processingPaths := processingPaths s2 - {resolvePath E installedPath}\<rparr>))
    \<and> (\<forall>fuel rootManifest e s s'.
          readPackageJson E (rootDir E) = Inr rootManifest \<longrightarrow>
          resolveChildren fuel E (rootDir E) (orEmpty (pkgDependencies rootManifest))
            (orEmpty (pkgOptionalDependencies rootManifest)) s = (Threw e, s') \<longrightarrow>
          getDependenciesTree fuel E s = (Threw e, s'))
    \<and> (\<forall>fuel s. realDir = rootDir E \<longrightarrow>
          getDependenciesTree fuel E s
            = (Threw (Error (''Unable to read package.json for '' @ realDir @ '': '' @ message)), s))
    \<and> (\<forall>fuel s. dependencyCacheByPath (snd (getDependenciesTree fuel E s)) realDir
                  = dependencyCacheByPath s realDir)"
proof -
  let ?e = "Error (''Unable to read package.json for '' @ realDir @ '': '' @ message)"
  have read: "readPackageJson E realDir = Inl ?e"
    using unreadable by (simp add: readPackageJson_def)
  have load: "loadDependency fuel E a dir opt s = (Threw ?e, s)"
    if "findInstalledDependency E dir a = Some (Some installedPath)"
      and "resolvePath E installedPath = realDir"
      and "dependencyCacheByPath s realDir = None" and "realDir \<notin> processingPaths s"
    for fuel a dir opt installedPath s
    using that read by (simp add: loadDependency_manifest_error)
  have descend: "loadDependency (Suc fuel) E a dir opt s
            = (Threw e, s2\<lparr>processingPaths := processingPaths s2 - {resolvePath E installedPath}\<rparr>)"
    if "findInstalledDependency E dir a = Some (Some installedPath)"
      and "dependencyCacheByPath s (resolvePath E installedPath) = None"
      and "resolvePath E installedPath \<notin> processingPaths s"
      and "readPackageJson E (resolvePath E installedPath) = Inr manifest"
      and "resolveChildren fuel E (resolvePath E installedPath) (orEmpty (pkgDependencies manifest))
            (orEmpty (pkgOptionalDependencies manifest))
            (s\<lparr>processingPaths := insert (resolvePath E installedPath) (processingPaths s)\<rparr>)
            = (Threw e, s2)"
    for fuel a dir opt installedPath manifest e s s2
    using that by (simp add: loadDependency_descend afterChildren_def)
  have top: "getDependenciesTree fuel E s = (Threw e, s')"
    if "readPackageJson E (rootDir E) = Inr rootManifest"
      and "resolveChildren fuel E (rootDir E) (orEmpty (pkgDependencies rootManifest))
            (orEmpty (pkgOptionalDependencies rootManifest)) s = (Threw e, s')"
    for fuel rootManifest e s s'
    using that by (simp add: getDependenciesTree_def Let_def)
  have root: "getDependenciesTree fuel E s = (Threw ?e, s)" if "realDir = rootDir E" for fuel s
    using that read by (simp add: getDependenciesTree_def)
  have "realDir \<notin> loadedDirs E" using read by (simp add: loadedDirs_def)
  then have cache: "dependencyCacheByPath (snd (getDependenciesTree fuel E s)) realDir
                  = dependencyCacheByPath s realDir" for fuel s
    using getDependenciesTree_frame [of E s fuel] by (simp add: frame_def)
  show ?thesis
    using read load resolveAliases_throws resolveChildren_throws_required
      resolveChildren_throws_optional descend top root cache
    by (intro conjI allI impI) blast+
qed

theorem readPackageJson_failure_is_fatal_witness:
  "requireJson brokenProject (pathJoin brokenProject [''/app/node_modules/b'', ''package.json''])
     = Inl ''Cannot find module /app/node_modules/b/package.json''
   \<and> readPackageJson brokenProject ''/app/node_modules/b''
       = Inl (Error (''Unable to read package.json for /app/node_modules/b: ''
                     @ ''Cannot find module /app/node_modules/b/package.json''))
   \<and> fst (getDependenciesTree 2 brokenProject initialCollector)
       = Threw (Error (''Unable to read package.json for /app/node_modules/b: ''
                       @ ''Cannot find module /app/node_modules/b/package.json''))
   \<and> dependencyCacheByPath (snd (getDependenciesTree 2 brokenProject initialCollector))
         ''/app/node_modules/b'' = None"
proof -
  have u: "requireJson brokenProject (pathJoin brokenProject [''/app/node_modules/b'', ''package.json''])
     = Inl ''Cannot find module /app/node_modules/b/package.json''"
    by code_simp
  have t: "fst (getDependenciesTree 2 brokenProject initialCollector)
       = Threw (Error (''Unable to read package.json for /app/node_modules/b: ''
                       @ ''Cannot find module /app/node_modules/b/package.json''))"
    by code_simp
  have c: "dependencyCacheByPath initialCollector ''/app/node_modules/b'' = None"
    by (simp add: initialCollector_def)
  from readPackageJson_failure_is_fatal [OF u] u t c show ?thesis by simp
qed

subsection \<open>The root node\<close>



subsection \<open>The tree build comes back\<close>









section \<open>The transitive collector\<close>

declare collectAllDependencies.simps [simp del] descendants.simps [simp del]

lemma closedEntry_mono: "closedEntry r e \<Longrightarrow> fst ` set r \<subseteq> fst ` set r' \<Longrightarrow> closedEntry r' e"
  unfolding closedEntry_def by blast

lemma grows_refl: "grows m m"
  by (simp add: grows_def)

lemma grows_keys: "grows m r \<Longrightarrow> fst ` set m \<subseteq> fst ` set r"
  by (auto simp: grows_def)

lemma grows_trans:
  assumes "grows m r" and "grows r r'"
  shows "grows m r'"
proof -
  from assms(1) obtain new where n: "r = m @ new" "distinct (map fst new)"
    "fst ` set new \<inter> fst ` set m = {}" "\<forall>e \<in> set new. closedEntry r e"
    unfolding grows_def by blast
  from assms(2) obtain new' where n': "r' = r @ new'" "distinct (map fst new')"
    "fst ` set new' \<inter> fst ` set r = {}" "\<forall>e \<in> set new'. closedEntry r' e"
    unfolding grows_def by blast
  have sub: "fst ` set r \<subseteq> fst ` set r'" using n'(1) by auto
  have keys_r: "fst ` set r = fst ` set m \<union> fst ` set new" using n(1) by auto
  have a: "r' = m @ (new @ new')" using n(1) n'(1) by simp
  have "fst ` set new \<inter> fst ` set new' = {}" using n'(3) keys_r by blast
  then have b: "distinct (map fst (new @ new'))" using n(2) n'(2) by simp
  have "fst ` set new' \<inter> fst ` set m = {}" using n'(3) keys_r by blast
  then have c: "fst ` set (new @ new') \<inter> fst ` set m = {}" using n(3) by auto
  have d: "\<forall>e \<in> set (new @ new'). closedEntry r' e"
  proof
    fix e
    assume "e \<in> set (new @ new')"
    then consider "e \<in> set new" | "e \<in> set new'" by auto
    then show "closedEntry r' e"
    proof cases
      case 1
      with n(4) have "closedEntry r e" by (rule bspec)
      then show ?thesis using sub by (rule closedEntry_mono)
    next
      case 2
      with n'(4) show ?thesis by (rule bspec)
    qed
  qed
  from a b c d show ?thesis unfolding grows_def by blast
qed

lemma grows_insert:
  assumes absent: "dependencyKey d \<notin> fst ` set m"
    and g: "grows (m @ [(dependencyKey d, d)]) r"
    and children: "\<forall>c \<in> set (childNodes d). dependencyKey c \<in> fst ` set r"
  shows "grows m r"
proof -
  from g obtain new where n: "r = (m @ [(dependencyKey d, d)]) @ new" "distinct (map fst new)"
    "fst ` set new \<inter> fst ` set (m @ [(dependencyKey d, d)]) = {}"
    "\<forall>e \<in> set new. closedEntry r e"
    unfolding grows_def by blast
  have a: "r = m @ ((dependencyKey d, d) # new)" using n(1) by simp
  have "dependencyKey d \<notin> fst ` set new" using n(3) by auto
  then have b: "distinct (map fst ((dependencyKey d, d) # new))" using n(2) by simp
  have "fst ` set new \<inter> fst ` set m = {}" using n(3) by auto
  then have c: "fst ` set ((dependencyKey d, d) # new) \<inter> fst ` set m = {}"
    using absent by auto
  have "closedEntry r (dependencyKey d, d)" using children by (simp add: closedEntry_def)
  then have e: "\<forall>e \<in> set ((dependencyKey d, d) # new). closedEntry r e" using n(4) by simp
  from a b c e show ?thesis unfolding grows_def by blast
qed

lemma map_of_None_iff: "map_of m k = None \<longleftrightarrow> k \<notin> fst ` set m"
  by (simp add: map_of_eq_None_iff)

lemma collectEach_new:
  "map_of m (dependencyKey d) = None \<Longrightarrow>
   collectEach (d # rest) m = collectEach rest (collectAllDependencies d (m @ [(dependencyKey d, d)]))"
  by (simp add: Let_def)

lemma collectEach_seen:
  "map_of m (dependencyKey d) \<noteq> None \<Longrightarrow> collectEach (d # rest) m = collectEach rest m"
  by (cases "map_of m (dependencyKey d)") (simp_all add: Let_def)

lemma collect_grows:
  "grows m (collectAllDependencies tree m)
     \<and> (\<forall>c \<in> set (childNodes tree). dependencyKey c \<in> fst ` set (collectAllDependencies tree m))"
  "grows m (collectEach ds m) \<and> (\<forall>c \<in> set ds. dependencyKey c \<in> fst ` set (collectEach ds m))"
proof (induction tree m and ds m rule: collectAllDependencies_collectEach.induct)
  case (1 tree m)
  let ?r1 = "collectEach (map snd (orEmpty (dependencies tree))) m"
  let ?r = "collectEach (map snd (orEmpty (optionalDependencies tree))) ?r1"
  from 1(1) have g1: "grows m ?r1"
    and c1: "\<forall>c \<in> set (map snd (orEmpty (dependencies tree))). dependencyKey c \<in> fst ` set ?r1"
    by simp_all
  from 1(2) have g2: "grows ?r1 ?r"
    and c2: "\<forall>c \<in> set (map snd (orEmpty (optionalDependencies tree))). dependencyKey c \<in> fst ` set ?r"
    by simp_all
  have g: "grows m ?r" using g1 g2 by (rule grows_trans)
  have sub: "fst ` set ?r1 \<subseteq> fst ` set ?r" using g2 by (rule grows_keys)
  have "\<forall>c \<in> set (childNodes tree). dependencyKey c \<in> fst ` set ?r"
  proof
    fix c
    assume "c \<in> set (childNodes tree)"
    then consider "c \<in> set (map snd (orEmpty (dependencies tree)))"
      | "c \<in> set (map snd (orEmpty (optionalDependencies tree)))"
      unfolding childNodes_def by auto
    then show "dependencyKey c \<in> fst ` set ?r"
    proof cases
      case 1
      with c1 have "dependencyKey c \<in> fst ` set ?r1" by (rule bspec)
      with sub show ?thesis by (rule subsetD)
    next
      case 2
      with c2 show ?thesis by (rule bspec)
    qed
  qed
  with g show ?case unfolding collectAllDependencies.simps [of tree m] by simp
next
  case (2 m)
  show ?case by (simp add: grows_refl)
next
  case (3 d rest m)
  show ?case
  proof (cases "map_of m (dependencyKey d) = None")
    case True
    let ?m1 = "m @ [(dependencyKey d, d)]"
    let ?r1 = "collectAllDependencies d ?m1"
    let ?r = "collectEach rest ?r1"
    from 3(1) [OF refl True] have g1: "grows ?m1 ?r1"
      and c1: "\<forall>c \<in> set (childNodes d). dependencyKey c \<in> fst ` set ?r1" by simp_all
    from 3(2) [OF refl True] have g2: "grows ?r1 ?r"
      and c2: "\<forall>c \<in> set rest. dependencyKey c \<in> fst ` set ?r" by simp_all
    from True have absent: "dependencyKey d \<notin> fst ` set m" by (simp add: map_of_None_iff)
    from absent g1 c1 have "grows m ?r1" by (rule grows_insert)
    then have g: "grows m ?r" using g2 by (rule grows_trans)
    have "dependencyKey d \<in> fst ` set ?m1" by simp
    then have "dependencyKey d \<in> fst ` set ?r"
      using grows_keys [OF g1] grows_keys [OF g2] by blast
    with g c2 show ?thesis unfolding collectEach_new [OF True] by simp
  next
    case False
    from 3(3) [OF refl False] have g: "grows m (collectEach rest m)"
      and c: "\<forall>c \<in> set rest. dependencyKey c \<in> fst ` set (collectEach rest m)" by simp_all
    from False have "dependencyKey d \<in> fst ` set m" by (simp add: map_of_None_iff)
    then have "dependencyKey d \<in> fst ` set (collectEach rest m)" using grows_keys [OF g] by blast
    with g c show ?thesis unfolding collectEach_seen [OF False] by simp
  qed
qed

lemma descendantsEach_append:
  "set (descendantsEach (xs @ ys)) = set (descendantsEach xs) \<union> set (descendantsEach ys)"
  by (induction xs) auto

lemma collect_origin:
  "snd ` set (collectAllDependencies tree m) \<subseteq> snd ` set m \<union> set (descendants tree)"
  "snd ` set (collectEach ds m) \<subseteq> snd ` set m \<union> set (descendantsEach ds)"
proof (induction tree m and ds m rule: collectAllDependencies_collectEach.induct)
  case (1 tree m)
  let ?ds = "map snd (orEmpty (dependencies tree))"
  let ?os = "map snd (orEmpty (optionalDependencies tree))"
  have d: "set (descendants tree) = set (descendantsEach ?ds) \<union> set (descendantsEach ?os)"
    by (simp add: descendants.simps childNodes_def descendantsEach_append)
  have "snd ` set (collectEach ?os (collectEach ?ds m))
      \<subseteq> snd ` set (collectEach ?ds m) \<union> set (descendantsEach ?os)"
    by (rule 1(2))
  also have "\<dots> \<subseteq> (snd ` set m \<union> set (descendantsEach ?ds)) \<union> set (descendantsEach ?os)"
    using 1(1) by (rule Un_mono) simp
  finally show ?case unfolding collectAllDependencies.simps [of tree m] d by (simp add: Un_assoc)
next
  case (2 m)
  show ?case by simp
next
  case (3 d rest m)
  show ?case
  proof (cases "map_of m (dependencyKey d) = None")
    case True
    let ?m1 = "m @ [(dependencyKey d, d)]"
    let ?D = "set (descendantsEach (d # rest))"
    have "snd ` set (collectEach rest (collectAllDependencies d ?m1))
       \<subseteq> snd ` set (collectAllDependencies d ?m1) \<union> set (descendantsEach rest)"
      by (rule 3(2) [OF refl True])
    also have "\<dots> \<subseteq> (snd ` set ?m1 \<union> set (descendants d)) \<union> set (descendantsEach rest)"
      using 3(1) [OF refl True] by (rule Un_mono) simp
    also have "\<dots> = snd ` set m \<union> ?D" by auto
    finally show ?thesis unfolding collectEach_new [OF True] .
  next
    case False
    have "snd ` set (collectEach rest m) \<subseteq> snd ` set m \<union> set (descendantsEach rest)"
      by (rule 3(3) [OF refl False])
    also have "\<dots> \<subseteq> snd ` set m \<union> set (descendantsEach (d # rest))" by auto
    finally show ?thesis unfolding collectEach_seen [OF False] .
  qed
qed

lemma children_are_descendants:
  "set (childNodes tree) \<subseteq> set (descendants tree)"
  "set ds \<subseteq> set (descendantsEach ds)"
  by (induction tree and ds rule: descendants_descendantsEach.induct)
     (auto simp: descendants.simps)

lemma descendants_closed:
  "\<forall>d \<in> set (descendants tree). set (childNodes d) \<subseteq> set (descendants tree)"
  "\<forall>d \<in> set (descendantsEach ds). set (childNodes d) \<subseteq> set (descendantsEach ds)"
proof (induction tree and ds rule: descendants_descendantsEach.induct)
  case (1 tree)
  then show ?case by (simp add: descendants.simps)
next
  case 2
  show ?case by simp
next
  case (3 d rest)
  have "set (childNodes d) \<subseteq> set (descendants d)" by (rule children_are_descendants)
  with 3 show ?case by auto
qed

lemma descendants_reach:
  assumes step: "\<forall>d \<in> G. set (childNodes d) \<subseteq> G"
  shows "set (childNodes tree) \<subseteq> G \<longrightarrow> set (descendants tree) \<subseteq> G"
    "set ds \<subseteq> G \<longrightarrow> set (descendantsEach ds) \<subseteq> G"
proof (induction tree and ds rule: descendants_descendantsEach.induct)
  case (1 tree)
  then show ?case by (simp add: descendants.simps)
next
  case 2
  show ?case by simp
next
  case (3 d rest)
  with step show ?case by auto
qed

lemma count_once:
  "distinct (map fst xs) \<Longrightarrow> k \<in> fst ` set xs \<Longrightarrow> length (filter (\<lambda>e. fst e = k) xs) = 1"
proof (induction xs)
  case Nil
  then show ?case by simp
next
  case (Cons x xs)
  show ?case
  proof (cases "fst x = k")
    case True
    with Cons.prems(1) have "k \<notin> fst ` set xs" by simp
    then have "filter (\<lambda>e. fst e = k) xs = []" by (auto simp: filter_empty_conv)
    with True show ?thesis by simp
  next
    case False
    with Cons show ?thesis by auto
  qed
qed

lemma collect_from_empty:
  fixes tree :: BunDependency
  defines "r \<equiv> collectAllDependencies tree []"
  shows "distinct (map fst r)"
    and "\<forall>e \<in> set r. closedEntry r e \<and> snd e \<in> set (descendants tree)"
    and "\<forall>c \<in> set (childNodes tree). dependencyKey c \<in> fst ` set r"
proof -
  have g: "grows [] r" and top: "\<forall>c \<in> set (childNodes tree). dependencyKey c \<in> fst ` set r"
    using collect_grows(1) [of "[]" tree] unfolding r_def by simp_all
  from g show "distinct (map fst r)" by (simp add: grows_def)
  from g have closed: "\<forall>e \<in> set r. closedEntry r e" by (simp add: grows_def)
  have "snd ` set r \<subseteq> set (descendants tree)"
    using collect_origin(1) [of tree "[]"] unfolding r_def by simp
  with closed show "\<forall>e \<in> set r. closedEntry r e \<and> snd e \<in> set (descendants tree)" by blast
  show "\<forall>c \<in> set (childNodes tree). dependencyKey c \<in> fst ` set r" by (rule top)
qed

lemma collect_covers:
  assumes same: "sameIdSameNode tree"
  shows "dependencyKey ` set (descendants tree) \<subseteq> fst ` set (collectAllDependencies tree [])"
proof -
  let ?r = "collectAllDependencies tree []"
  let ?G = "{d \<in> set (descendants tree). dependencyKey d \<in> fst ` set ?r}"
  note facts = collect_from_empty [of tree]
  have step: "\<forall>d \<in> ?G. set (childNodes d) \<subseteq> ?G"
  proof (intro ballI subsetI)
    fix d c
    assume d: "d \<in> ?G" and c: "c \<in> set (childNodes d)"
    from d have dd: "d \<in> set (descendants tree)" and "dependencyKey d \<in> fst ` set ?r" by simp_all
    then obtain e where e: "e \<in> set ?r" "fst e = dependencyKey d" by auto
    from facts(2) e(1) have ce: "closedEntry ?r e" and de: "snd e \<in> set (descendants tree)" by simp_all
    from ce e(2) have "dependencyKey (snd e) = dependencyKey d" by (simp add: closedEntry_def)
    with same de dd have "snd e = d" unfolding sameIdSameNode_def by blast
    with ce c have k: "dependencyKey c \<in> fst ` set ?r" by (simp add: closedEntry_def)
    from descendants_closed(1) [of tree] dd c have "c \<in> set (descendants tree)" by blast
    with k show "c \<in> ?G" by simp
  qed
  have "set (childNodes tree) \<subseteq> ?G"
    using children_are_descendants(1) [of tree] facts(3) by blast
  with descendants_reach(1) [OF step, of tree] have "set (descendants tree) \<subseteq> ?G" by blast
  then show ?thesis by blast
qed

section \<open>The path cache\<close>

text \<open>
  Every node of a tree that the build returns is the node that the path cache holds for its
  path. So two nodes of the tree with the same path are the same node.
\<close>

lemma cacheGrows_refl: "cacheGrows s s"
  by (simp add: cacheGrows_def)

lemma cacheGrows_trans: "cacheGrows s s' \<Longrightarrow> cacheGrows s' s'' \<Longrightarrow> cacheGrows s s''"
  unfolding cacheGrows_def by auto

lemma cacheGrows_log: "cacheGrows s (s\<lparr>debugLog := l\<rparr>)"
  by (simp add: cacheGrows_def cacheClosed_def cachedNode_def)

lemma cachedNode_grows: "cacheGrows s s' \<Longrightarrow> cachedNode s d \<Longrightarrow> cachedNode s' d"
  by (simp add: cacheGrows_def cachedNode_def)

lemma built_childNodes:
  "childNodes (BunDependency n v r p md mo (nonEmptyOrUndefined ds) (nonEmptyOrUndefined os))
     = map snd ds @ map snd os"
  by (simp add: childNodes_def orEmpty_def nonEmptyOrUndefined_def)

lemma afterChildren_cache:
  assumes uncached: "dependencyCacheByPath s realDir = None"
    and fresh: "realDir \<notin> processingPaths s"
    and kids: "childrenGood (s\<lparr>processingPaths := insert realDir (processingPaths s)\<rparr>) r"
  shows "loadGood s (afterChildren E a realDir manifest r)"
proof -
  let ?s1 = "s\<lparr>processingPaths := insert realDir (processingPaths s)\<rparr>"
  from kids have g: "cacheGrows ?s1 (snd r)" by (simp add: childrenGood_def)
  have closed1: "cacheClosed ?s1 = cacheClosed s" by (simp add: cacheClosed_def cachedNode_def)
  from g have proc: "processingPaths (snd r) = insert realDir (processingPaths s)"
    by (simp add: cacheGrows_def)
  from g have mono: "dependencyCacheByPath (snd r) p = Some d"
    if "dependencyCacheByPath s p = Some d" for p d
    using that by (simp add: cacheGrows_def)
  from g have "\<forall>p \<in> processingPaths ?s1. dependencyCacheByPath (snd r) p = dependencyCacheByPath ?s1 p"
    unfolding cacheGrows_def by blast
  then have same: "dependencyCacheByPath (snd r) p = dependencyCacheByPath s p"
    if "p \<in> insert realDir (processingPaths s)" for p
    using that by auto
  from g have closed: "cacheClosed (snd r)" if "cacheClosed s"
    using that by (simp add: cacheGrows_def closed1)
  from same [of realDir] uncached have none: "dependencyCacheByPath (snd r) realDir = None" by simp
  have stopped: "cacheGrows s ((snd r)\<lparr>processingPaths := processingPaths (snd r) - {realDir}\<rparr>)"
    unfolding cacheGrows_def
  proof (intro conjI allI impI ballI)
    show "processingPaths ((snd r)\<lparr>processingPaths := processingPaths (snd r) - {realDir}\<rparr>)
        = processingPaths s"
      using proc fresh by simp
  next
    fix p d assume "dependencyCacheByPath s p = Some d"
    then show "dependencyCacheByPath ((snd r)\<lparr>processingPaths := processingPaths (snd r) - {realDir}\<rparr>) p
        = Some d"
      using mono [of p d] by simp
  next
    fix p assume "p \<in> processingPaths s"
    then show "dependencyCacheByPath ((snd r)\<lparr>processingPaths := processingPaths (snd r) - {realDir}\<rparr>) p
        = dependencyCacheByPath s p"
      using same [of p] by simp
  next
    assume "cacheClosed s"
    then have "cacheClosed (snd r)" by (rule closed)
    then show "cacheClosed ((snd r)\<lparr>processingPaths := processingPaths (snd r) - {realDir}\<rparr>)"
      by (simp add: cacheClosed_def cachedNode_def)
  qed
  show ?thesis
  proof (cases "fst r")
    case Unfinished
    then have res: "afterChildren E a realDir manifest r
        = (Unfinished, (snd r)\<lparr>processingPaths := processingPaths (snd r) - {realDir}\<rparr>)"
      by (simp add: afterChildren_def)
    have "cacheGrows s ((snd r)\<lparr>processingPaths := processingPaths (snd r) - {realDir}\<rparr>)"
      by (rule stopped)
    then show ?thesis unfolding res loadGood_def by simp
  next
    case (Threw e)
    then have res: "afterChildren E a realDir manifest r
        = (Threw e, (snd r)\<lparr>processingPaths := processingPaths (snd r) - {realDir}\<rparr>)"
      by (simp add: afterChildren_def)
    have "cacheGrows s ((snd r)\<lparr>processingPaths := processingPaths (snd r) - {realDir}\<rparr>)"
      by (rule stopped)
    then show ?thesis unfolding res loadGood_def by simp
  next
    case (Returned childMaps)
    obtain ds os where cm: "childMaps = (ds, os)" by (cases childMaps)
    let ?created = "createReference E (orDefault (pkgName manifest) a) (pkgVersion manifest) realDir (snd r)"
    let ?node = "BunDependency (orDefault (pkgName manifest) a)
                (orDefault (pkgVersion manifest) ''0.0.0'') (fst ?created) realDir
                (orEmpty (pkgDependencies manifest)) (orEmpty (pkgOptionalDependencies manifest))
                (nonEmptyOrUndefined ds) (nonEmptyOrUndefined os)"
    let ?s' = "(snd ?created)\<lparr>dependencyCacheByPath := (dependencyCacheByPath (snd ?created))(realDir \<mapsto> ?node),
                 processingPaths := processingPaths (snd ?created) - {realDir}\<rparr>"
    have c: "processingPaths (snd ?created) = processingPaths (snd r)"
      "dependencyCacheByPath (snd ?created) = dependencyCacheByPath (snd r)"
      using createReference_frame [of E _ _ realDir "snd r"] by simp_all
    have res: "afterChildren E a realDir manifest r = (Returned (Some ?node), ?s')"
      using Returned cm by (simp add: afterChildren_def Let_def)
    have cache': "dependencyCacheByPath ?s' = (dependencyCacheByPath (snd r))(realDir \<mapsto> ?node)"
      by (simp add: c)
    have keep: "cachedNode ?s' c" if "cachedNode (snd r) c" for c
    proof -
      from that none have "path c \<noteq> realDir" by (auto simp: cachedNode_def)
      with that show ?thesis by (simp add: cachedNode_def cache')
    qed
    have g': "cacheGrows s ?s'"
      unfolding cacheGrows_def
    proof (intro conjI allI impI ballI)
      show "processingPaths ?s' = processingPaths s" using proc fresh by (simp add: c)
    next
      fix p d assume "dependencyCacheByPath s p = Some d"
      with uncached mono [of p d] show "dependencyCacheByPath ?s' p = Some d"
        by (auto simp: cache')
    next
      fix p assume "p \<in> processingPaths s"
      with fresh same [of p] show "dependencyCacheByPath ?s' p = dependencyCacheByPath s p"
        by (auto simp: cache')
    next
      assume cs: "cacheClosed s"
      then have cr: "cacheClosed (snd r)" by (rule closed)
      from kids cs Returned cm have kidsc: "\<forall>d \<in> snd ` set ds \<union> snd ` set os. cachedNode (snd r) d"
        by (simp add: childrenGood_def closed1)
      show "cacheClosed ?s'"
        unfolding cacheClosed_def
      proof (intro allI impI conjI ballI)
        fix p d assume e: "dependencyCacheByPath ?s' p = Some d"
        show "path d = p"
        proof (cases "p = realDir")
          case True with e show ?thesis by (auto simp: cache')
        next
          case False with e cr show ?thesis by (simp add: cache' cacheClosed_def)
        qed
        fix c assume ch: "c \<in> set (childNodes d)"
        show "cachedNode ?s' c"
        proof (cases "p = realDir")
          case True
          with e have "d = ?node" by (auto simp: cache')
          with ch have "c \<in> snd ` set ds \<union> snd ` set os" by (simp add: built_childNodes)
          with kidsc have "cachedNode (snd r) c" by blast
          then show ?thesis by (rule keep)
        next
          case False
          with e have "dependencyCacheByPath (snd r) p = Some d" by (simp add: cache')
          with cr ch have "cachedNode (snd r) c" by (simp add: cacheClosed_def)
          then show ?thesis by (rule keep)
        qed
      qed
    qed
    have "cachedNode ?s' ?node" by (simp add: cachedNode_def c)
    with g' show ?thesis unfolding res loadGood_def by simp
  qed
qed


lemma loadGood_same:
  "loadGood s (Unfinished, s)" "loadGood s (Threw e, s)" "loadGood s (Returned None, s)"
  by (simp_all add: loadGood_def cacheGrows_refl)

lemma loadGood_cache_entry: "loadGood s (Returned (dependencyCacheByPath s p), s)"
  by (auto simp: loadGood_def cacheGrows_refl cacheClosed_def cachedNode_def)

lemma loadDependency_cache_step:
  assumes children:
    "\<And>fuel' dir md mo s. fuel = Suc fuel' \<Longrightarrow> childrenGood s (resolveChildren fuel' E dir md mo s)"
  shows "loadGood s (loadDependency fuel E a requesterDir isOptional s)"
proof (cases "findInstalledDependency E requesterDir a")
  case None
  then show ?thesis by (simp add: loadDependency_walk_unfinished loadGood_same)
next
  case (Some found)
  show ?thesis
  proof (cases found)
    case None
    with Some show ?thesis
      by (simp add: loadDependency_not_found loadGood_same) (simp add: loadGood_def cacheGrows_log)
  next
    case (Some installedPath)
    note found = \<open>findInstalledDependency E requesterDir a = Some found\<close> [unfolded Some]
    let ?realDir = "resolvePath E installedPath"
    show ?thesis
    proof (cases "?realDir \<in> processingPaths s")
      case True
      with found show ?thesis by (simp add: loadDependency_in_progress loadGood_cache_entry)
    next
      case False
      note fresh = this
      show ?thesis
      proof (cases "dependencyCacheByPath s ?realDir")
        case (Some cached)
        with found loadGood_cache_entry [of s ?realDir] show ?thesis
          by (simp add: loadDependency_cached)
      next
        case None
        note uncached = this
        show ?thesis
        proof (cases "readPackageJson E ?realDir")
          case (Inl e)
          with found uncached fresh show ?thesis
            by (simp add: loadDependency_manifest_error loadGood_same)
        next
          case (Inr manifest)
          show ?thesis
          proof (cases fuel)
            case 0
            with found uncached fresh Inr show ?thesis
              by (simp add: loadDependency_no_fuel loadGood_same)
          next
            case (Suc fuel')
            with found uncached fresh Inr show ?thesis
              by (simp add: loadDependency_descend afterChildren_cache children)
          qed
        qed
      qed
    qed
  qed
qed

lemma assignProperty_values: "snd ` set (assignProperty a d acc) \<subseteq> insert d (snd ` set acc)"
proof -
  have "snd ` set (AList.update a d acc) \<subseteq> insert d (snd ` set acc)"
    by (induction acc) auto
  then show ?thesis by (auto simp: assignProperty_def)
qed

lemma resolveAliases_cache_step:
  assumes load: "\<And>a opt s. loadGood s (loadDependency fuel E a dir opt s)"
  shows "aliasesGood s acc (resolveAliases fuel E dir opt aliases acc s)"
proof (induction aliases arbitrary: acc s)
  case Nil
  show ?case by (simp add: aliasesGood_def cacheGrows_refl)
next
  case (Cons a aliases)
  obtain r s1 where eq: "loadDependency fuel E a dir opt s = (r, s1)"
    by (cases "loadDependency fuel E a dir opt s")
  have l: "loadGood s (r, s1)" using load [of s a opt] by (simp add: eq)
  then have g: "cacheGrows s s1" by (simp add: loadGood_def)
  have rest: "aliasesGood s acc (resolveAliases fuel E dir opt aliases acc' s1)"
    if "cacheClosed s \<and> (\<forall>d \<in> snd ` set acc. cachedNode s d) \<longrightarrow> (\<forall>d \<in> snd ` set acc'. cachedNode s1 d)"
    for acc'
  proof -
    let ?x = "resolveAliases fuel E dir opt aliases acc' s1"
    from Cons.IH [where acc = acc' and s = s1] have ih: "aliasesGood s1 acc' ?x" .
    then have "cacheGrows s1 (snd ?x)" by (simp add: aliasesGood_def)
    with g have g2: "cacheGrows s (snd ?x)" by (rule cacheGrows_trans)
    from g have c1: "cacheClosed s \<Longrightarrow> cacheClosed s1" by (simp add: cacheGrows_def)
    from ih c1 that g2 show ?thesis unfolding aliasesGood_def by blast
  qed
  show ?case
  proof (cases r)
    case Unfinished
    with eq g show ?thesis by (simp add: aliasesGood_def)
  next
    case (Threw e)
    with eq g show ?thesis by (simp add: aliasesGood_def)
  next
    case (Returned dep)
    show ?thesis
    proof (cases dep)
      case None
      have "aliasesGood s acc (resolveAliases fuel E dir opt aliases acc s1)"
        by (rule rest) (use g cachedNode_grows in blast)
      with Returned None eq show ?thesis by simp
    next
      case (Some d)
      from l Returned Some have dc: "cacheClosed s \<Longrightarrow> cachedNode s1 d" by (simp add: loadGood_def)
      have "aliasesGood s acc (resolveAliases fuel E dir opt aliases (assignProperty a d acc) s1)"
      proof (rule rest, intro impI ballI)
        fix c
        assume pre: "cacheClosed s \<and> (\<forall>d \<in> snd ` set acc. cachedNode s d)"
          and "c \<in> snd ` set (assignProperty a d acc)"
        with assignProperty_values [of a d acc] have "c = d \<or> c \<in> snd ` set acc" by blast
        with pre dc g cachedNode_grows show "cachedNode s1 c" by blast
      qed
      with Returned Some eq show ?thesis by simp
    qed
  qed
qed


lemma resolveChildren_cache_step:
  assumes load: "\<And>a opt s. loadGood s (loadDependency fuel E a dir opt s)"
  shows "childrenGood s (resolveChildren fuel E dir md mo s)"
proof -
  obtain r s1 where eq: "resolveAliases fuel E dir False (map fst md) [] s = (r, s1)"
    by (cases "resolveAliases fuel E dir False (map fst md) [] s")
  have a: "aliasesGood s [] (r, s1)"
    using resolveAliases_cache_step [of fuel E dir s "[]" False "map fst md"] load by (simp add: eq)
  then have g: "cacheGrows s s1" by (simp add: aliasesGood_def)
  show ?thesis
  proof (cases r)
    case Unfinished
    with eq g show ?thesis by (simp add: resolveChildren.simps childrenGood_def)
  next
    case (Threw e)
    with eq g show ?thesis by (simp add: resolveChildren.simps childrenGood_def)
  next
    case (Returned ds)
    obtain r' s2 where eq': "resolveAliases fuel E dir True (map fst mo) [] s1 = (r', s2)"
      by (cases "resolveAliases fuel E dir True (map fst mo) [] s1")
    have b: "aliasesGood s1 [] (r', s2)"
      using resolveAliases_cache_step [of fuel E dir s1 "[]" True "map fst mo"] load by (simp add: eq')
    then have g': "cacheGrows s1 s2" by (simp add: aliasesGood_def)
    with g have g2: "cacheGrows s s2" by (rule cacheGrows_trans)
    from g have c1: "cacheClosed s \<Longrightarrow> cacheClosed s1" by (simp add: cacheGrows_def)
    from a Returned have dsc: "cacheClosed s \<Longrightarrow> \<forall>d \<in> snd ` set ds. cachedNode s1 d"
      by (simp add: aliasesGood_def)
    show ?thesis
    proof (cases r')
      case Unfinished
      with Returned eq eq' g2 show ?thesis by (simp add: resolveChildren.simps childrenGood_def)
    next
      case (Threw e)
      with Returned eq eq' g2 show ?thesis by (simp add: resolveChildren.simps childrenGood_def)
    next
      case (Returned os)
      from b Returned c1 have osc: "cacheClosed s \<Longrightarrow> \<forall>d \<in> snd ` set os. cachedNode s2 d"
        by (simp add: aliasesGood_def)
      have res: "resolveChildren fuel E dir md mo s = (Returned (ds, os), s2)"
        using \<open>r = Returned ds\<close> Returned eq eq' by (simp add: resolveChildren.simps)
      have "cacheClosed s \<Longrightarrow> \<forall>d \<in> snd ` set ds \<union> snd ` set os. cachedNode s2 d"
        using dsc osc g' cachedNode_grows by blast
      with g2 show ?thesis unfolding res childrenGood_def by simp
    qed
  qed
qed

lemma cache_all:
  "(\<forall>a dir opt s. loadGood s (loadDependency fuel E a dir opt s))
   \<and> (\<forall>dir md mo s. childrenGood s (resolveChildren fuel E dir md mo s))"
proof (induction fuel)
  case 0
  have l: "loadGood s (loadDependency 0 E a dir opt s)" for a dir opt s
    by (rule loadDependency_cache_step) simp
  show ?case
  proof (intro conjI allI)
    fix a dir opt s md mo
    show "loadGood s (loadDependency 0 E a dir opt s)" by (rule l)
    show "childrenGood s (resolveChildren 0 E dir md mo s)"
      by (rule resolveChildren_cache_step) (rule l)
  qed
next
  case (Suc fuel)
  have l: "loadGood s (loadDependency (Suc fuel) E a dir opt s)" for a dir opt s
    by (rule loadDependency_cache_step) (use Suc.IH in auto)
  show ?case
  proof (intro conjI allI)
    fix a dir opt s md mo
    show "loadGood s (loadDependency (Suc fuel) E a dir opt s)" by (rule l)
    show "childrenGood s (resolveChildren (Suc fuel) E dir md mo s)"
      by (rule resolveChildren_cache_step) (rule l)
  qed
qed

lemma built_nodes_cached:
  assumes returned: "getDependenciesTree fuel E s = (Returned tree, s')"
    and closed: "cacheClosed s"
  shows "\<forall>d \<in> set (descendants tree). cachedNode s' d"
proof -
  obtain rootManifest where read: "readPackageJson E (rootDir E) = Inr rootManifest"
    using returned by (cases "readPackageJson E (rootDir E)") (simp_all add: getDependenciesTree_def)
  let ?rc = "resolveChildren fuel E (rootDir E) (orEmpty (pkgDependencies rootManifest))
               (orEmpty (pkgOptionalDependencies rootManifest)) s"
  obtain r s1 where eq: "?rc = (r, s1)" by (cases ?rc)
  from returned read eq obtain ds os where r: "r = Returned (ds, os)" and s1: "s1 = s'"
    and tree: "tree = BunDependency (orDefault (pkgName rootManifest) ''.'')
                  (orDefault (pkgVersion rootManifest) ''0.0.0'') ''.'' (rootDir E)
                  (orEmpty (pkgDependencies rootManifest)) (orEmpty (pkgOptionalDependencies rootManifest))
                  (nonEmptyOrUndefined ds) (nonEmptyOrUndefined os)"
    by (cases r) (auto simp: getDependenciesTree_def Let_def)
  have good: "childrenGood s (r, s')" using cache_all [of fuel E] eq s1 by metis
  with closed r have kids: "\<forall>d \<in> snd ` set ds \<union> snd ` set os. cachedNode s' d"
    and closed': "cacheClosed s'"
    by (simp_all add: childrenGood_def cacheGrows_def)
  let ?G = "{d. cachedNode s' d}"
  have step: "\<forall>d \<in> ?G. set (childNodes d) \<subseteq> ?G"
    using closed' by (auto simp: cacheClosed_def cachedNode_def)
  have "set (childNodes tree) \<subseteq> ?G" using kids unfolding tree built_childNodes by auto
  with descendants_reach(1) [OF step, of tree] show ?thesis by blast
qed

lemma built_same_path:
  assumes returned: "fst (getDependenciesTree fuel E initialCollector) = Returned tree"
    and d: "d \<in> set (descendants tree)" and d': "d' \<in> set (descendants tree)"
    and same: "path d = path d'"
  shows "d = d'"
proof -
  have closed: "cacheClosed initialCollector" by (simp add: cacheClosed_def initialCollector_def)
  from returned have "getDependenciesTree fuel E initialCollector
      = (Returned tree, snd (getDependenciesTree fuel E initialCollector))"
    by (metis prod.collapse)
  from built_nodes_cached [OF this closed] d d'
  have "cachedNode (snd (getDependenciesTree fuel E initialCollector)) d"
    and "cachedNode (snd (getDependenciesTree fuel E initialCollector)) d'"
    by blast+
  with same show ?thesis by (simp add: cachedNode_def)
qed

lemma built_sameIdSameNode:
  assumes "fst (getDependenciesTree fuel E initialCollector) = Returned tree"
    and "distinctIdentifiers tree"
  shows "sameIdSameNode tree"
  unfolding sameIdSameNode_def
proof (intro ballI impI)
  fix d d'
  assume d: "d \<in> set (descendants tree)" and d': "d' \<in> set (descendants tree)"
    and "dependencyKey d = dependencyKey d'"
  with assms(2) have "path d = path d'" unfolding distinctIdentifiers_def by blast
  with assms(1) d d' show "d = d'" by (rule built_same_path)
qed

section \<open>Dependency cycles\<close>


lemma every_node_once:
  assumes "sameIdSameNode tree" and "d \<in> set (descendants tree)"
  shows "length (filter (\<lambda>e. fst e = dependencyKey d) (collectAllDependencies tree [])) = 1"
proof -
  from assms collect_covers [of tree]
  have "dependencyKey d \<in> fst ` set (collectAllDependencies tree [])" by blast
  with collect_from_empty(1) [of tree] show ?thesis by (rule count_once)
qed

lemma collisionProject_builds:
  "fst (getDependenciesTree 3 collisionProject initialCollector) = Returned collisionTree"
  by (simp add: getDependenciesTree_def resolveChildren.simps loadDependency.simps
      findInstalledDependency_def findInstalledDependency_loop.simps readPackageJson_def
      collisionProject_def collisionTree_def sampleProject_def manifestOf_def initialCollector_def
      createReference_def truthy_def orDefault_def orEmpty_def nonEmptyOrUndefined_def
      assignProperty_def posixDirname_def Let_def nested_digest_36592 nested_digest_66221)




section \<open>Uniqueness in the transitive map\<close>

text \<open>
  C4. \<^verbatim>\<open>collectAllDependencies\<close> only appends to the transitive map, under keys it does not
  hold yet: the entries it was given stay as they are and distinct keys stay distinct. A node
  whose key is already present is passed over, with everything below it. Collected from the
  empty map, every entry is a node of the tree stored under its own identifier, no key occurs
  twice, and the map has a key for the identifier of every child of the root and of every child
  of a node it stores. When no two different nodes of the tree have the same identifier, every
  node below the root has exactly one entry, however many parents lead to it. In a tree that a
  fresh collector returns, two nodes with the same real path are the same node, so there it is
  enough that no two nodes with different real paths have the same identifier.
\<close>

theorem collectAllDependencies_unique:
  "(\<exists>new. collectAllDependencies tree allDependencies = allDependencies @ new)
   \<and> (distinct (map fst allDependencies) \<longrightarrow>
        distinct (map fst (collectAllDependencies tree allDependencies)))
   \<and> (\<forall>dependency rest. map_of allDependencies (dependencyKey dependency) \<noteq> None \<longrightarrow>
        collectEach (dependency # rest) allDependencies = collectEach rest allDependencies)
   \<and> (\<forall>e \<in> set (collectAllDependencies tree []).
        fst e = dependencyKey (snd e) \<and> snd e \<in> set (descendants tree))
   \<and> distinct (map fst (collectAllDependencies tree []))
   \<and> (\<forall>c \<in> set (childNodes tree). dependencyKey c \<in> fst ` set (collectAllDependencies tree []))
   \<and> (\<forall>e \<in> set (collectAllDependencies tree []). \<forall>c \<in> set (childNodes (snd e)).
        dependencyKey c \<in> fst ` set (collectAllDependencies tree []))
   \<and> (sameIdSameNode tree \<longrightarrow>
        (\<forall>d \<in> set (descendants tree).
           length (filter (\<lambda>e. fst e = dependencyKey d) (collectAllDependencies tree [])) = 1))
   \<and> (\<forall>fuel E.
        fst (getDependenciesTree fuel E initialCollector) = Returned tree \<and> distinctIdentifiers tree \<longrightarrow>
        (\<forall>d \<in> set (descendants tree).
           length (filter (\<lambda>e. fst e = dependencyKey d) (collectAllDependencies tree [])) = 1))"
proof (intro conjI impI allI ballI)
  have g: "grows allDependencies (collectAllDependencies tree allDependencies)"
    using collect_grows(1) [of allDependencies tree] by simp
  then show "\<exists>new. collectAllDependencies tree allDependencies = allDependencies @ new"
    unfolding grows_def by blast
  assume old: "distinct (map fst allDependencies)"
  from g obtain new where n: "collectAllDependencies tree allDependencies = allDependencies @ new"
    "distinct (map fst new)" "fst ` set new \<inter> fst ` set allDependencies = {}"
    unfolding grows_def by blast
  from n(3) have "set (map fst allDependencies) \<inter> set (map fst new) = {}" by auto
  with old n(2) show "distinct (map fst (collectAllDependencies tree allDependencies))"
    unfolding n(1) by simp
next
  fix dependency rest
  assume "map_of allDependencies (dependencyKey dependency) \<noteq> None"
  then show "collectEach (dependency # rest) allDependencies = collectEach rest allDependencies"
    by (rule collectEach_seen)
next
  fix e
  assume "e \<in> set (collectAllDependencies tree [])"
  with collect_from_empty(2) [of tree]
  have "closedEntry (collectAllDependencies tree []) e \<and> snd e \<in> set (descendants tree)" by blast
  then show "fst e = dependencyKey (snd e)" and "snd e \<in> set (descendants tree)"
    by (simp_all add: closedEntry_def)
next
  show "distinct (map fst (collectAllDependencies tree []))" by (rule collect_from_empty(1))
next
  fix c
  assume "c \<in> set (childNodes tree)"
  with collect_from_empty(3) [of tree]
  show "dependencyKey c \<in> fst ` set (collectAllDependencies tree [])" by blast
next
  fix e c
  assume "e \<in> set (collectAllDependencies tree [])" and c: "c \<in> set (childNodes (snd e))"
  with collect_from_empty(2) [of tree]
  have "closedEntry (collectAllDependencies tree []) e" by blast
  with c show "dependencyKey c \<in> fst ` set (collectAllDependencies tree [])"
    by (simp add: closedEntry_def)
next
  fix d
  assume "sameIdSameNode tree" and "d \<in> set (descendants tree)"
  then show "length (filter (\<lambda>e. fst e = dependencyKey d) (collectAllDependencies tree [])) = 1"
    by (rule every_node_once)
next
  fix fuel E d
  assume built: "fst (getDependenciesTree fuel E initialCollector) = Returned tree \<and> distinctIdentifiers tree"
    and d: "d \<in> set (descendants tree)"
  from built have "sameIdSameNode tree" using built_sameIdSameNode [of fuel E tree] by blast
  then show "length (filter (\<lambda>e. fst e = dependencyKey d) (collectAllDependencies tree [])) = 1"
    using d by (rule every_node_once)
qed

theorem collectAllDependencies_unique_witness:
  "fst (getDependenciesTree 2 diamondProject initialCollector) = Returned diamondTree
   \<and> distinctIdentifiers diamondTree
   \<and> sameIdSameNode diamondTree
   \<and> map dependencyKey (descendants diamondTree)
       = [''a@1.0.0'', ''lodash@4.17.21'', ''b@1.0.0'', ''lodash@4.17.21'']
   \<and> map fst (collectAllDependencies diamondTree []) = [''a@1.0.0'', ''lodash@4.17.21'', ''b@1.0.0'']
   \<and> length (filter (\<lambda>e. fst e = ''lodash@4.17.21'') (collectAllDependencies diamondTree [])) = 1"
proof -
  let ?lodash = "BunDependency ''lodash'' ''4.17.21'' ''4.17.21'' ''/app/node_modules/lodash'' [] [] None None"
  have built: "fst (getDependenciesTree 2 diamondProject initialCollector) = Returned diamondTree"
    by code_simp
  have same: "sameIdSameNode diamondTree" by code_simp
  have paths: "distinctIdentifiers diamondTree" by code_simp
  have below: "map dependencyKey (descendants diamondTree)
       = [''a@1.0.0'', ''lodash@4.17.21'', ''b@1.0.0'', ''lodash@4.17.21'']"
    by code_simp
  have keys: "map fst (collectAllDependencies diamondTree []) = [''a@1.0.0'', ''lodash@4.17.21'', ''b@1.0.0'']"
    by code_simp
  have member: "?lodash \<in> set (descendants diamondTree)" by code_simp
  have key: "dependencyKey ?lodash = ''lodash@4.17.21''" by code_simp
  from collectAllDependencies_unique [of diamondTree "[]"] built paths member
  have "length (filter (\<lambda>e. fst e = dependencyKey ?lodash) (collectAllDependencies diamondTree [])) = 1"
    by blast
  with built same paths below keys show ?thesis unfolding key by simp
qed

text \<open>
  In the tree that the build returns for the collision project, the two nested \<open>left-pad\<close>
  installations are different nodes with the one identifier \<open>left-pad@1.0.0+8c22c90d\<close>. The
  transitive map stores the first of them; the second is passed over, and its child \<open>b\<close>,
  a node below the root, has no entry.
\<close>

theorem collectAllDependencies_misses_node:
  "fst (getDependenciesTree 3 collisionProject initialCollector) = Returned collisionTree
   \<and> map dependencyKey (descendants collisionTree)
       = [''left-pad@1.0.0'', ''pkg36592@1.0.0'', ''left-pad@1.0.0+8c22c90d'', ''pkg66221@1.0.0'',
          ''left-pad@1.0.0+8c22c90d'', ''b@1.0.0'']
   \<and> map fst (collectAllDependencies collisionTree [])
       = [''left-pad@1.0.0'', ''pkg36592@1.0.0'', ''left-pad@1.0.0+8c22c90d'', ''pkg66221@1.0.0'']
   \<and> ''b@1.0.0'' \<notin> set (map fst (collectAllDependencies collisionTree []))
   \<and> \<not> distinctIdentifiers collisionTree"
proof -
  have "map dependencyKey (descendants collisionTree)
       = [''left-pad@1.0.0'', ''pkg36592@1.0.0'', ''left-pad@1.0.0+8c22c90d'', ''pkg66221@1.0.0'',
          ''left-pad@1.0.0+8c22c90d'', ''b@1.0.0'']
   \<and> map fst (collectAllDependencies collisionTree [])
       = [''left-pad@1.0.0'', ''pkg36592@1.0.0'', ''left-pad@1.0.0+8c22c90d'', ''pkg66221@1.0.0'']
   \<and> ''b@1.0.0'' \<notin> set (map fst (collectAllDependencies collisionTree []))
   \<and> \<not> distinctIdentifiers collisionTree"
    by code_simp
  with collisionProject_builds show ?thesis by simp
qed

section \<open>The production graph\<close>

declare extractProductionDependencyGraph.simps [simp del]

lemma extractProductionDependencyGraph_memo:
  "productionGraph dependencyId \<noteq> None \<Longrightarrow>
   extractProductionDependencyGraph tree dependencyId productionGraph = productionGraph"
  by (simp add: extractProductionDependencyGraph.simps)

lemma appendChildren_edges:
  "fst (appendChildren entries manifest acc g) = acc @ keptChildren entries manifest"
proof (induction entries arbitrary: acc g)
  case Nil
  show ?case by (simp add: keptChildren_def)
next
  case (Cons entry entries)
  obtain a dep where entry: "entry = (a, dep)" by (cases entry)
  show ?case
  proof (cases "truthyProperty manifest a")
    case True
    with Cons.IH [of "acc @ [dependencyKey dep]"] show ?thesis
      by (simp add: entry keptChildren_def Let_def)
  next
    case False
    with Cons.IH [of acc g] show ?thesis by (simp add: entry keptChildren_def)
  qed
qed

lemma extractProductionDependencyGraph_edges:
  "productionGraph dependencyId = None \<Longrightarrow>
   extractProductionDependencyGraph tree dependencyId productionGraph dependencyId
     = Some (productionEdges tree)"
  by (simp add: extractProductionDependencyGraph.simps [of tree dependencyId productionGraph]
        split_beta Let_def appendChildren_edges productionEdges_def)

lemma keptChildren_edge:
  "key \<in> set (keptChildren entries manifest) \<longleftrightarrow>
   (\<exists>e \<in> set entries. key = dependencyKey (snd e) \<and> truthyProperty manifest (fst e))"
  by (auto simp: keptChildren_def)

lemma truthyProperty_own_key:
  "a \<in> fst ` set manifest \<Longrightarrow> truthyProperty manifest a \<longleftrightarrow> map_of manifest a \<noteq> Some []"
  by (cases "map_of manifest a") (auto simp: truthyProperty_def map_of_eq_None_iff)

text \<open>
  C1. The test \<^verbatim>\<open>if (!manifest[alias])\<close> reads the version range for its truth value. In a
  project whose root manifest declares \<open>x\<close> with the empty range, \<^verbatim>\<open>getDependenciesTree\<close>
  resolves \<open>x\<close> under the root (its loop runs over the keys of the manifest map), and
  \<^verbatim>\<open>collectAllDependencies\<close> puts it into the transitive map; the alias is a key of the
  root's \<^verbatim>\<open>manifestDependencies\<close>, and the edge list that
  \<^verbatim>\<open>extractProductionDependencyGraph\<close> stores for the root is empty, with no entry made for
  \<open>x\<close>.
\<close>

theorem extractProductionDependencyGraph_drops_empty_range:
  "fst (getDependenciesTree 1 emptyRangeProject initialCollector) = Returned emptyRangeTree
   \<and> ''x'' \<in> fst ` set (manifestDependencies emptyRangeTree)
   \<and> map (\<lambda>e. (fst e, dependencyKey (snd e))) (orEmpty (dependencies emptyRangeTree)) = [(''x'', ''x@1.0.0'')]
   \<and> map fst (collectAllDependencies emptyRangeTree []) = [''x@1.0.0'']
   \<and> extractProductionDependencyGraph emptyRangeTree ''app@.'' Map.empty ''app@.'' = Some []
   \<and> extractProductionDependencyGraph emptyRangeTree ''app@.'' Map.empty ''x@1.0.0'' = None"
  by code_simp

end
